theory Spec2Isabelle
  imports Complex_Main "HOL-Library.Multiset"
begin

section \<open>Deal or No Deal: the offer engine, the advisor and the round loops of main.cpp\<close>

text \<open>
  The embedding follows \<^verbatim>\<open>src/main.cpp\<close>. A C++ \<^verbatim>\<open>double\<close> is read as a
  \<^typ>\<open>real\<close>: every formula below is the expression tree of the source, evaluated in
  exact arithmetic. A C++ \<^verbatim>\<open>int\<close> is read as an \<^typ>\<open>int\<close>; the counters of the
  program stay far below the range where overflow would matter. An exception is a value:
  a function that throws returns \<open>Inl\<close> of the exception together with the object's
  state at the throw. A read from standard input that never succeeds never returns: it is
  the value \<open>None\<close>.
\<close>

subsection \<open>Exceptions\<close>

text \<open>Both are \<^verbatim>\<open>GameStateException\<close>s of \<^verbatim>\<open>openCases\<close>; the argument is the case
  number the message names (the zero-based number, before the \<^verbatim>\<open>+ 1\<close> of the text).\<close>

datatype GameStateException = InvalidCaseNumber int | CaseAlreadyOpened int

subsection \<open>GameStats\<close>

record GameStats =
  gamesPlayed :: int
  gamesWon :: int
  totalWinnings :: real
  bestWinning :: real
  averageWinning :: real

definition newGameStats :: GameStats where
  "newGameStats = \<lparr>gamesPlayed = 0, gamesWon = 0, totalWinnings = 0, bestWinning = 0,
     averageWinning = 0\<rparr>"

definition updateStats :: "real \<Rightarrow> GameStats \<Rightarrow> GameStats" where
  "updateStats winnings s =
     (let s1 = s\<lparr>gamesPlayed := gamesPlayed s + 1\<rparr>;
          s2 = s1\<lparr>totalWinnings := totalWinnings s1 + winnings\<rparr>;
          s3 = (if winnings > bestWinning s2 then s2\<lparr>bestWinning := winnings\<rparr> else s2);
          s4 = s3\<lparr>averageWinning := totalWinnings s3 / real_of_int (gamesPlayed s3)\<rparr>
      in if winnings > 0 then s4\<lparr>gamesWon := gamesWon s4 + 1\<rparr> else s4)"

text \<open>The win rate that \<^verbatim>\<open>displayStats\<close> prints, in percent.\<close>

definition winRate :: "GameStats \<Rightarrow> real" where
  "winRate s =
     (if gamesPlayed s > 0 then real_of_int (gamesWon s) / real_of_int (gamesPlayed s) * 100
      else 0)"

subsection \<open>ComputerPlayer: expected value, dispersion, risk factor, decision\<close>

text \<open>The accumulation loops \<^verbatim>\<open>for (double prize : remainingPrizes) sum += prize\<close> are
  folds from the left.\<close>

definition calculateExpectedValue :: "real list \<Rightarrow> real" where
  "calculateExpectedValue remaining =
     (if remaining = [] then 0
      else fold (\<lambda>prize sum. sum + prize) remaining 0 / real (length remaining))"

definition calculateStandardDeviation :: "real list \<Rightarrow> real" where
  "calculateStandardDeviation remaining =
     (if length remaining \<le> 1 then 0
      else
        let mean = calculateExpectedValue remaining;
            variance = fold (\<lambda>prize v. v + (prize - mean) * (prize - mean)) remaining 0;
            variance' = variance / real (length remaining)
        in sqrt variance')"

definition calculateRiskFactor :: "real list \<Rightarrow> real \<Rightarrow> real" where
  "calculateRiskFactor remaining bankOffer =
     (let expectedValue = calculateExpectedValue remaining;
          stdDev = calculateStandardDeviation remaining;
          riskAdjustment = stdDev / (expectedValue + 1);
          betterCount = fold (\<lambda>prize c. if prize > bankOffer then c + 1 else c) remaining (0::int);
          probBetter = real_of_int betterCount / real (length remaining)
      in probBetter - riskAdjustment * 0.3)"

definition shouldAcceptDeal :: "real list \<Rightarrow> real \<Rightarrow> int \<Rightarrow> bool" where
  "shouldAcceptDeal remaining bankOffer casesRemaining =
     (if remaining = [] then True
      else
        let expectedValue = calculateExpectedValue remaining
        in if casesRemaining > 10 then bankOffer \<ge> expectedValue * 0.9
           else if casesRemaining > 5 then bankOffer \<ge> expectedValue * 0.85
           else
             let riskFactor = calculateRiskFactor remaining bankOffer
             in riskFactor < 0.4 \<or> bankOffer \<ge> expectedValue * 0.8)"

subsection \<open>The game object\<close>

text \<open>The fields of \<^verbatim>\<open>DealOrNoDealGame\<close> that the game logic reads and writes. The field
  \<^verbatim>\<open>round\<close> is \<open>round_no\<close> here, \<open>round\<close> being a function of the library.\<close>

record game =
  caseValues :: "real list"
  casesOpened :: "bool list"
  remainingPrizes :: "real list"
  playerCase :: int
  round_no :: int
  finalWinning :: real
  stats :: GameStats

definition allPrizes :: "real list" where
  "allPrizes =
     [0.01, 1, 5, 10, 25, 50, 75, 100, 200, 300,
      400, 500, 750, 1000, 5000, 10000, 25000, 50000,
      75000, 100000, 200000, 300000, 400000, 500000, 750000, 1000000]"

text \<open>\<^verbatim>\<open>std::sort(remainingPrizes.rbegin(), remainingPrizes.rend())\<close> sorts the reversed
  range in ascending order, so the vector itself ends in descending order.\<close>

definition updateRemainingPrizes :: "game \<Rightarrow> game" where
  "updateRemainingPrizes g =
     g\<lparr>remainingPrizes :=
         rev (sort (map (\<lambda>i. caseValues g ! i)
                        (filter (\<lambda>i. \<not> casesOpened g ! i) [0..<26])))\<rparr>"

definition calculateBankOffer :: "game \<Rightarrow> real" where
  "calculateBankOffer g =
     (if remainingPrizes g = [] then 0
      else
        let sum = fold (\<lambda>prize sum. sum + prize) (remainingPrizes g) 0;
            averageValue = sum / real (length (remainingPrizes g));
            offerPercentage = 0.1 + real_of_int (round_no g) * 0.05;
            offerPercentage' = (if offerPercentage > 0.9 then 0.9 else offerPercentage)
        in averageValue * offerPercentage')"


subsection \<open>Randomness\<close>

text \<open>
  \<^verbatim>\<open>std::mt19937\<close>, \<^verbatim>\<open>std::shuffle\<close> and \<^verbatim>\<open>std::uniform_int_distribution\<close> are library
  code. A generator is a state of some type \<open>'r\<close>. A shuffler takes the generator's
  state and a length \<open>n\<close> and yields an arrangement of the positions \<open>0..<n\<close> with the
  generator's next state; \<open>std_shuffle\<close> rearranges a list by it. A distribution takes the
  state and yields a number with the next state. The theorems assume of them only what
  the library promises: a shuffle is a permutation, and the distribution of
  \<^verbatim>\<open>computerPlay\<close> stays within 0 and 25.
\<close>

type_synonym 'r shuffler = "'r \<Rightarrow> nat \<Rightarrow> nat list \<times> 'r"

type_synonym 'r distribution = "'r \<Rightarrow> int \<times> 'r"

definition std_shuffle :: "'r shuffler \<Rightarrow> 'a list \<Rightarrow> 'r \<Rightarrow> 'a list \<times> 'r" where
  "std_shuffle sh xs rng =
     (case sh rng (length xs) of (p, rng') \<Rightarrow> (map (\<lambda>i. xs ! i) p, rng'))"

definition permuting :: "'r shuffler \<Rightarrow> bool" where
  "permuting sh = (\<forall>rng n. mset (fst (sh rng n)) = mset [0..<n])"

definition within_0_25 :: "'r distribution \<Rightarrow> bool" where
  "within_0_25 draw = (\<forall>rng. 0 \<le> fst (draw rng) \<and> fst (draw rng) \<le> 25)"

subsection \<open>ComputerPlayer: which cases to open\<close>

definition selectCasesToOpen :: "'r shuffler \<Rightarrow> bool list \<Rightarrow> int \<Rightarrow> 'r \<Rightarrow> int list \<times> 'r" where
  "selectCasesToOpen sh opened numToOpen rng =
     (let availableCases = map int (filter (\<lambda>i. \<not> opened ! i) [0..<length opened])
      in case std_shuffle sh availableCases rng of
           (shuffled, rng') \<Rightarrow>
             (take (nat (min numToOpen (int (length shuffled)))) shuffled, rng'))"

subsection \<open>Starting a game and opening cases\<close>

text \<open>The object as its constructor leaves it; the statistics are what \<^verbatim>\<open>loadStats\<close> found.\<close>

definition newGame :: "GameStats \<Rightarrow> game" where
  "newGame loaded =
     \<lparr>caseValues = [], casesOpened = [], remainingPrizes = [], playerCase = - 1,
      round_no = 0, finalWinning = 0, stats = loaded\<rparr>"

definition shufflePrizes :: "'r shuffler \<Rightarrow> 'r \<Rightarrow> game \<Rightarrow> game \<times> 'r" where
  "shufflePrizes sh rng g =
     (case std_shuffle sh allPrizes rng of
        (shuffled, rng') \<Rightarrow>
          (updateRemainingPrizes (g\<lparr>caseValues := shuffled, casesOpened := replicate 26 False\<rparr>),
           rng'))"

text \<open>The loop of \<^verbatim>\<open>openCases\<close>. A throw leaves the loop with the object as it is at that
  moment: the cases marked before it stay marked.\<close>

fun openLoop :: "int list \<Rightarrow> game \<Rightarrow> (GameStateException \<times> game) + game" where
  "openLoop [] g = Inr g"
| "openLoop (caseNum # rest) g =
     (if caseNum < 0 \<or> caseNum \<ge> 26 then Inl (InvalidCaseNumber caseNum, g)
      else if casesOpened g ! nat caseNum then Inl (CaseAlreadyOpened caseNum, g)
      else openLoop rest (g\<lparr>casesOpened := (casesOpened g)[nat caseNum := True]\<rparr>))"

definition openCases :: "int list \<Rightarrow> game \<Rightarrow> (GameStateException \<times> game) + game" where
  "openCases casesToOpen g =
     (case openLoop casesToOpen g of
        Inl thrown \<Rightarrow> Inl thrown
      | Inr g' \<Rightarrow> Inr (updateRemainingPrizes g'))"

subsection \<open>Standard input\<close>

text \<open>
  A line of standard input, by what the two readers make of it. \<open>Number n\<close> is a line
  that \<^verbatim>\<open>getValidInput\<close> parses, whole, as the int \<open>n\<close>; \<open>Yes\<close> and \<open>No\<close> are lines whose
  first character is y or n in either case; \<open>Other\<close> is any other line, the empty one
  included. At the end of the input \<^verbatim>\<open>std::getline\<close> leaves the line empty, the reader
  throws and catches its own exception and asks again, for ever: the reader does not
  return, which is \<open>None\<close>.
\<close>

datatype line = Number int | Yes | No | Other

fun getValidInput :: "int \<Rightarrow> int \<Rightarrow> line list \<Rightarrow> (int \<times> line list) option" where
  "getValidInput lo hi [] = None"
| "getValidInput lo hi (Number n # rest) =
     (if n < lo \<or> n > hi then getValidInput lo hi rest else Some (n, rest))"
| "getValidInput lo hi (_ # rest) = getValidInput lo hi rest"

fun getYesNoInput :: "line list \<Rightarrow> (bool \<times> line list) option" where
  "getYesNoInput [] = None"
| "getYesNoInput (Yes # rest) = Some (True, rest)"
| "getYesNoInput (No # rest) = Some (False, rest)"
| "getYesNoInput (_ # rest) = getYesNoInput rest"

lemma getValidInput_shorter:
  "getValidInput lo hi input = Some (n, rest) \<Longrightarrow> length rest < length input"
  by (induction lo hi input rule: getValidInput.induct) (auto split: if_splits)

text \<open>The loop \<^verbatim>\<open>while (!validChoice)\<close> of \<^verbatim>\<open>playGame\<close>: it asks until the choice is neither
  the player's case, nor an opened case, nor a case already selected in this round.\<close>

function chooseCase :: "game \<Rightarrow> int list \<Rightarrow> line list \<Rightarrow> (int \<times> line list) option" where
  "chooseCase g casesToOpen input =
     (case getValidInput 1 26 input of
        None \<Rightarrow> None
      | Some (n, rest) \<Rightarrow>
          (let caseChoice = n - 1
           in if caseChoice = playerCase g then chooseCase g casesToOpen rest
              else if casesOpened g ! nat caseChoice then chooseCase g casesToOpen rest
              else if caseChoice \<in> set casesToOpen then chooseCase g casesToOpen rest
              else Some (caseChoice, rest)))"
  by pat_completeness auto
termination
  by (relation "measure (\<lambda>(g, casesToOpen, input). length input)")
    (auto dest: getValidInput_shorter)

declare chooseCase.simps [simp del]

text \<open>The loop \<^verbatim>\<open>for (int i = 0; i < roundCases; i++)\<close> around it.\<close>

fun selectRound :: "nat \<Rightarrow> game \<Rightarrow> int list \<Rightarrow> line list \<Rightarrow> (int list \<times> line list) option" where
  "selectRound 0 g casesToOpen input = Some (casesToOpen, input)"
| "selectRound (Suc k) g casesToOpen input =
     (case chooseCase g casesToOpen input of
        None \<Rightarrow> None
      | Some (caseChoice, rest) \<Rightarrow> selectRound k g (casesToOpen @ [caseChoice]) rest)"

subsection \<open>The round loops\<close>

text \<open>
  How a game ends: a deal at an offer, the final reveal of the player's case, or a
  \<^verbatim>\<open>GameStateException\<close> caught by the \<^verbatim>\<open>catch\<close> of the play function. A run of a play
  function is its history, the object when control leaves it, and its ending; the ending is
  \<open>None\<close> when the function never returns, because a reader never returns. The history
  is not a variable of the program: it records, for every call of \<^verbatim>\<open>openCases\<close> that
  returned, the schedule entry of the round, the cases selected, the cases passed to
  \<^verbatim>\<open>openCases\<close>, and the object after the call.
\<close>

datatype ending = Deal real | NoDealFinalReveal real | GameError GameStateException

record round_entry =
  scheduled :: int
  selected :: "int list"
  passed :: "int list"
  after :: game

type_synonym run = "round_entry list \<times> game \<times> ending option"

definition casesToOpenPerRound :: "int list" where
  "casesToOpenPerRound = [6, 5, 4, 3, 2, 1, 1, 1, 1]"

definition after_round :: "round_entry \<Rightarrow> run \<Rightarrow> run" where
  "after_round entry r = (case r of (history, g, e) \<Rightarrow> (entry # history, g, e))"

definition acceptDeal :: "real \<Rightarrow> game \<Rightarrow> run" where
  "acceptDeal bankOffer g =
     ([], g\<lparr>finalWinning := bankOffer, stats := updateStats bankOffer (stats g)\<rparr>,
      Some (Deal bankOffer))"

definition finalReveal :: "game \<Rightarrow> run" where
  "finalReveal g =
     (let won = caseValues g ! nat (playerCase g)
      in ([], g\<lparr>finalWinning := won, stats := updateStats won (stats g)\<rparr>,
          Some (NoDealFinalReveal won)))"

fun humanRounds :: "int list \<Rightarrow> line list \<Rightarrow> game \<Rightarrow> run" where
  "humanRounds [] input g = finalReveal g"
| "humanRounds (roundCases # schedule) input g =
     (if length (remainingPrizes g) \<le> 1 then finalReveal g
      else
        case selectRound (nat roundCases) g [] input of
          None \<Rightarrow> ([], g, None)
        | Some (casesToOpen, input1) \<Rightarrow>
            (case openCases casesToOpen g of
               Inl (thrown, g') \<Rightarrow> ([], g', Some (GameError thrown))
             | Inr g1 \<Rightarrow>
                 after_round
                   \<lparr>scheduled = roundCases, selected = casesToOpen, passed = casesToOpen,
                    after = g1\<rparr>
                   (if length (remainingPrizes g1) \<le> 1 then finalReveal g1
                    else
                      let bankOffer = calculateBankOffer g1
                      in case getYesNoInput input1 of
                           None \<Rightarrow> ([], g1, None)
                         | Some (deal, input2) \<Rightarrow>
                             if deal then acceptDeal bankOffer g1
                             else humanRounds schedule input2
                                    (g1\<lparr>round_no := round_no g1 + 1\<rparr>))))"

definition playGame :: "'r shuffler \<Rightarrow> 'r \<Rightarrow> line list \<Rightarrow> game \<Rightarrow> run" where
  "playGame sh rng input g =
     (case getValidInput 1 26 input of
        None \<Rightarrow> ([], g, None)
      | Some (n, input1) \<Rightarrow>
          (case shufflePrizes sh rng (g\<lparr>playerCase := n - 1\<rparr>) of
             (g1, rng') \<Rightarrow> humanRounds casesToOpenPerRound input1 (g1\<lparr>round_no := 1\<rparr>)))"

fun computerRounds :: "'r shuffler \<Rightarrow> int list \<Rightarrow> 'r \<Rightarrow> game \<Rightarrow> run" where
  "computerRounds sh [] airng g = finalReveal g"
| "computerRounds sh (roundCases # schedule) airng g =
     (if length (remainingPrizes g) \<le> 1 then finalReveal g
      else
        case selectCasesToOpen sh (casesOpened g) roundCases airng of
          (sampled, airng') \<Rightarrow>
            (let casesToOpen = filter (\<lambda>c. c \<noteq> playerCase g) sampled
             in case openCases casesToOpen g of
                  Inl (thrown, g') \<Rightarrow> ([], g', Some (GameError thrown))
                | Inr g1 \<Rightarrow>
                    after_round
                      \<lparr>scheduled = roundCases, selected = sampled, passed = casesToOpen,
                       after = g1\<rparr>
                      (if length (remainingPrizes g1) \<le> 1 then finalReveal g1
                       else
                         let bankOffer = calculateBankOffer g1
                         in if shouldAcceptDeal (remainingPrizes g1) bankOffer
                                 (int (length (remainingPrizes g1)))
                            then acceptDeal bankOffer g1
                            else computerRounds sh schedule airng'
                                   (g1\<lparr>round_no := round_no g1 + 1\<rparr>))))"

definition computerPlay ::
  "'r shuffler \<Rightarrow> 'r distribution \<Rightarrow> 'r \<Rightarrow> 'r \<Rightarrow> game \<Rightarrow> run" where
  "computerPlay sh draw rng airng g =
     (case draw rng of
        (drawn, rng1) \<Rightarrow>
          (case shufflePrizes sh rng1 (g\<lparr>playerCase := drawn\<rparr>) of
             (g1, rng2) \<Rightarrow>
               computerRounds sh casesToOpenPerRound airng (g1\<lparr>round_no := 1\<rparr>)))"

subsection \<open>The advisor's quantities in the words of the specification\<close>

text \<open>These follow section 4.4 of the specification, not the code; the theorems below
  compare the code with them.\<close>

definition spec_mean :: "real list \<Rightarrow> real" where
  "spec_mean xs = sum_list xs / real (length xs)"

definition spec_populationStdDev :: "real list \<Rightarrow> real" where
  "spec_populationStdDev xs =
     sqrt ((\<Sum>x\<leftarrow>xs. (x - spec_mean xs)\<^sup>2) / real (length xs))"

definition spec_stdDeviation :: "real list \<Rightarrow> real" where
  "spec_stdDeviation xs = (if length xs < 2 then 0 else spec_populationStdDev xs)"

definition spec_probabilityPrizeExceedsOffer :: "real list \<Rightarrow> real \<Rightarrow> real" where
  "spec_probabilityPrizeExceedsOffer xs offer =
     real (length (filter (\<lambda>p. p > offer) xs)) / real (length xs)"

definition spec_riskFactor :: "real list \<Rightarrow> real \<Rightarrow> real" where
  "spec_riskFactor xs offer =
     spec_probabilityPrizeExceedsOffer xs offer
       - 0.3 * (spec_stdDeviation xs / (spec_mean xs + 1))"

subsection \<open>Counting, and two states of a game\<close>

text \<open>The number of cases marked open, and the values behind the cases not marked open,
  in the order of the cases.\<close>

definition openedCount :: "game \<Rightarrow> nat" where
  "openedCount g = length (filter (\<lambda>opened. opened) (casesOpened g))"

definition hiddenValues :: "game \<Rightarrow> real list" where
  "hiddenValues g = map (\<lambda>i. caseValues g ! i) (filter (\<lambda>i. \<not> casesOpened g ! i) [0..<26])"

text \<open>A game as \<^verbatim>\<open>shufflePrizes\<close> leaves it when the shuffle keeps the order of the
  catalog and the player holds case 0; and the same game after case 1 has been opened.\<close>

definition exampleGame :: game where
  "exampleGame =
     \<lparr>caseValues = allPrizes, casesOpened = replicate 26 False, remainingPrizes = rev allPrizes,
      playerCase = 0, round_no = 1, finalWinning = 0, stats = newGameStats\<rparr>"


subsection \<open>Two shufflers, and the number of unopened cases\<close>

text \<open>Two of the outcomes a shuffle can have: the order kept, and the order reversed. The
  generator has no state that matters for them.\<close>

definition keepOrder :: "unit shuffler" where
  "keepOrder rng n = ([0..<n], rng)"

definition reverseOrder :: "unit shuffler" where
  "reverseOrder rng n = (rev [0..<n], rng)"

definition unopenedCount :: "bool list \<Rightarrow> nat" where
  "unopenedCount opened = length (filter (\<lambda>b. \<not> b) opened)"

subsection \<open>States of a game in play\<close>

text \<open>A case the player may still open; and what holds of the object between the rounds
  of a game: 26 case values that are the catalog in some order, 26 marks, a player's case
  in range and not marked open, the list of hidden prizes up to date, and a round
  counter that has been set.\<close>

definition openable :: "game \<Rightarrow> int \<Rightarrow> bool" where
  "openable g c = (0 \<le> c \<and> c < 26 \<and> c \<noteq> playerCase g \<and> \<not> casesOpened g ! nat c)"

definition inPlay :: "game \<Rightarrow> bool" where
  "inPlay g =
     (length (caseValues g) = 26 \<and> length (casesOpened g) = 26
      \<and> 0 \<le> playerCase g \<and> playerCase g < 26 \<and> \<not> casesOpened g ! nat (playerCase g)
      \<and> mset (caseValues g) = mset allPrizes
      \<and> remainingPrizes g = rev (sort (hiddenValues g))
      \<and> 1 \<le> round_no g)"

subsection \<open>Reading a run\<close>

definition history :: "run \<Rightarrow> round_entry list" where
  "history r = fst r"

definition final_state :: "run \<Rightarrow> game" where
  "final_state r = fst (snd r)"

definition ending_of :: "run \<Rightarrow> ending option" where
  "ending_of r = snd (snd r)"

text \<open>What the proofs below show of the end of a run that started from the state \<open>g\<close>,
  and of a whole run of at most \<open>n\<close> rounds.\<close>

definition sound_end :: "game \<Rightarrow> game \<Rightarrow> ending option \<Rightarrow> bool" where
  "sound_end g fin e =
     (playerCase fin = playerCase g \<and> caseValues fin = caseValues g
      \<and> length (casesOpened fin) = 26 \<and> \<not> casesOpened fin ! nat (playerCase fin)
      \<and> (case e of
            None \<Rightarrow> stats fin = stats g
          | Some (Deal won) \<Rightarrow>
              0 < won \<and> finalWinning fin = won \<and> stats fin = updateStats won (stats g)
          | Some (NoDealFinalReveal won) \<Rightarrow>
              won = caseValues g ! nat (playerCase g) \<and> 0 < won \<and> finalWinning fin = won
              \<and> stats fin = updateStats won (stats g)
          | Some (GameError thrown) \<Rightarrow> False))"

definition sound_run :: "game \<Rightarrow> nat \<Rightarrow> run \<Rightarrow> bool" where
  "sound_run g n r =
     (length (history r) \<le> n
      \<and> (\<forall>x \<in> set (history r).
            inPlay (after x) \<and> playerCase (after x) = playerCase g
            \<and> caseValues (after x) = caseValues g \<and> playerCase g \<notin> set (passed x))
      \<and> sound_end g (final_state r) (ending_of r))"

subsection \<open>A player who rejects every offer\<close>

text \<open>The line a player types to choose the case with the internal number \<open>c\<close> (the cases
  are numbered from 1 on the screen), and the input of a player who, round after round,
  types the cases of one batch and then refuses the offer.\<close>

definition typed :: "int \<Rightarrow> line" where
  "typed c = Number (c + 1)"

fun rejectAll :: "int list list \<Rightarrow> line list" where
  "rejectAll [] = []"
| "rejectAll (cs # css) = map typed cs @ No # rejectAll css"

text \<open>The batches of a player who holds case 0 and opens the cases 1 to 24 in order.\<close>

definition exampleBatches :: "int list list" where
  "exampleBatches =
     [[1, 2, 3, 4, 5, 6], [7, 8, 9, 10, 11], [12, 13, 14, 15], [16, 17, 18], [19, 20],
      [21], [22], [23], [24]]"

subsection \<open>What the claims say of a run\<close>

text \<open>A draw of the computer's case that yields case 0. Then: the player's case is closed
  in every state of the history and in the final state (once a case has been chosen; the
  object starts with the case number \<open>-1\<close>), and it is in no batch passed to
  \<^verbatim>\<open>openCases\<close>. And: the game was recorded with a positive payout, or not recorded at
  all because the function never returned.\<close>

definition zeroDraw :: "unit distribution" where
  "zeroDraw rng = (0, rng)"

definition playerCase_closed :: "run \<Rightarrow> bool" where
  "playerCase_closed r =
     ((\<forall>x \<in> set (history r).
          \<not> casesOpened (after x) ! nat (playerCase (after x))
          \<and> playerCase (after x) \<notin> set (passed x)
          \<and> playerCase (after x) = playerCase (final_state r))
      \<and> (0 \<le> playerCase (final_state r) \<longrightarrow>
            playerCase (final_state r) < 26 \<and> length (casesOpened (final_state r)) = 26
            \<and> \<not> casesOpened (final_state r) ! nat (playerCase (final_state r))))"

definition recorded_as_won :: "GameStats \<Rightarrow> run \<Rightarrow> bool" where
  "recorded_as_won loaded r =
     (case ending_of r of
        None \<Rightarrow> stats (final_state r) = loaded
      | Some (Deal won) \<Rightarrow> 0 < won \<and> stats (final_state r) = updateStats won loaded
      | Some (NoDealFinalReveal won) \<Rightarrow> 0 < won \<and> stats (final_state r) = updateStats won loaded
      | Some (GameError thrown) \<Rightarrow> False)"

text \<open>What a round of computer auto-play does with the player's case \<open>pc\<close>: as many
  cases are sampled as the schedule says, the batch passed to \<^verbatim>\<open>openCases\<close> is the sample
  without the player's case, and so it is one case short exactly when the player's case
  was sampled.\<close>

definition batch_of_round :: "int \<Rightarrow> round_entry \<Rightarrow> bool" where
  "batch_of_round pc x =
     (int (length (selected x)) = scheduled x
      \<and> passed x = filter (\<lambda>c. c \<noteq> pc) (selected x)
      \<and> (pc \<in> set (selected x) \<longrightarrow> int (length (passed x)) = scheduled x - 1)
      \<and> (pc \<notin> set (selected x) \<longrightarrow> int (length (passed x)) = scheduled x))"

text \<open>The marks after the cases of a list have been marked open, one after the other.\<close>

definition markOpen :: "int list \<Rightarrow> bool list \<Rightarrow> bool list" where
  "markOpen cs opened = fold (\<lambda>c marks. marks[nat c := True]) cs opened"

section \<open>Properties\<close>

subsection \<open>The bank offer\<close>

lemma fold_plus_sum_list: "fold (\<lambda>prize sum. sum + prize) xs (a::real) = a + sum_list xs"
  by (induction xs arbitrary: a) simp_all

text \<open>
  Claim C1. For every round number the bank offer is 0 when no prize is hidden, and
  otherwise the mean of the hidden prizes (their sum divided by their count) times
  \<open>min 0.9 (0.10 + 0.05 * round)\<close>.
\<close>

theorem calculateBankOffer_formula:
  "calculateBankOffer g =
     (if remainingPrizes g = [] then 0
      else (sum_list (remainingPrizes g) / real (length (remainingPrizes g)))
           * min 0.9 (0.10 + 0.05 * real_of_int (round_no g)))"
  by (simp add: calculateBankOffer_def Let_def fold_plus_sum_list min_def)

subsection \<open>The advisor\<close>

lemma fold_variance:
  "fold (\<lambda>prize v. v + (prize - m) * (prize - m)) xs (a::real) = a + (\<Sum>x\<leftarrow>xs. (x - m)\<^sup>2)"
  by (induction xs arbitrary: a) (simp_all add: power2_eq_square)

lemma fold_betterCount:
  "fold (\<lambda>prize c. if prize > b then c + 1 else c) xs (a::int)
     = a + int (length (filter (\<lambda>p. p > (b::real)) xs))"
  by (induction xs arbitrary: a) simp_all

lemma calculateExpectedValue_mean:
  "xs \<noteq> [] \<Longrightarrow> calculateExpectedValue xs = spec_mean xs"
  by (simp add: calculateExpectedValue_def spec_mean_def fold_plus_sum_list)

lemma calculateStandardDeviation_population:
  "2 \<le> length xs \<Longrightarrow> calculateStandardDeviation xs = spec_populationStdDev xs"
proof -
  assume len: "2 \<le> length xs"
  then have ne: "xs \<noteq> []" by auto
  from len have gt: "\<not> length xs \<le> 1" by simp
  show ?thesis
    using gt
    by (simp add: calculateStandardDeviation_def Let_def fold_variance
        calculateExpectedValue_mean [OF ne] spec_populationStdDev_def)
qed

lemma calculateStandardDeviation_spec:
  "calculateStandardDeviation xs = spec_stdDeviation xs"
proof (cases "2 \<le> length xs")
  case True
  then show ?thesis
    by (simp add: calculateStandardDeviation_population spec_stdDeviation_def)
next
  case False
  then have "length xs \<le> 1" by simp
  then show ?thesis
    by (simp add: calculateStandardDeviation_def spec_stdDeviation_def)
qed

lemma calculateRiskFactor_spec:
  "xs \<noteq> [] \<Longrightarrow> calculateRiskFactor xs offer = spec_riskFactor xs offer"
  by (simp add: calculateRiskFactor_def Let_def fold_betterCount calculateExpectedValue_mean
      calculateStandardDeviation_spec spec_riskFactor_def spec_probabilityPrizeExceedsOffer_def
      mult.commute)

text \<open>
  Claim C2. For a non-empty list of hidden prizes the decision follows the three tiers:
  with more than 10 cases remaining, accept iff the offer is at least 0.9 times the
  expected value; with 6 to 10, iff it is at least 0.85 times the expected value; with 5
  or fewer, iff the risk factor (the fraction of hidden prizes strictly above the offer,
  minus 0.3 times the standard deviation over the expected value plus one) is below 0.4
  or the offer is at least 0.8 times the expected value. With no hidden prize the
  decision is always to accept.
\<close>

theorem shouldAcceptDeal_three_tiers:
  "shouldAcceptDeal [] offer casesRemaining
   \<and> (xs \<noteq> [] \<longrightarrow>
        (casesRemaining > 10 \<longrightarrow>
           shouldAcceptDeal xs offer casesRemaining = (offer \<ge> 0.9 * spec_mean xs))
      \<and> (5 < casesRemaining \<and> casesRemaining \<le> 10 \<longrightarrow>
           shouldAcceptDeal xs offer casesRemaining = (offer \<ge> 0.85 * spec_mean xs))
      \<and> (casesRemaining \<le> 5 \<longrightarrow>
           shouldAcceptDeal xs offer casesRemaining
             = (spec_riskFactor xs offer < 0.4 \<or> offer \<ge> 0.8 * spec_mean xs)))"
  by (simp add: shouldAcceptDeal_def Let_def calculateExpectedValue_mean
      calculateRiskFactor_spec mult.commute)

text \<open>The three tiers at the prizes 100, 200, 300 (expected value 200): an early offer
  of 190 is accepted, a middle offer of 160 refused, a late offer of 150 refused (two of
  the three prizes exceed it, and the risk factor stays above 0.4), a late offer of 170
  accepted.\<close>

theorem shouldAcceptDeal_three_tiers_witness:
  "shouldAcceptDeal [100, 200, 300] 190 15
   \<and> \<not> shouldAcceptDeal [100, 200, 300] 160 8
   \<and> \<not> shouldAcceptDeal [100, 200, 300] 150 3
   \<and> shouldAcceptDeal [100, 200, 300] 170 3"
proof -
  let ?xs = "[100, 200, 300] :: real list"
  have m: "spec_mean ?xs = 200" by (simp add: spec_mean_def)
  have sd: "spec_stdDeviation ?xs = sqrt (20000 / 3)"
    by (simp add: spec_stdDeviation_def spec_populationStdDev_def m)
  have le: "sqrt (20000 / 3) \<le> (100::real)"
    by (rule real_le_lsqrt) simp_all
  have p150: "spec_probabilityPrizeExceedsOffer ?xs 150 = 2 / 3"
    by (simp add: spec_probabilityPrizeExceedsOffer_def)
  have r150: "\<not> spec_riskFactor ?xs 150 < 0.4"
    using le by (simp add: spec_riskFactor_def p150 sd m)
  have early: "shouldAcceptDeal ?xs 190 15"
    using shouldAcceptDeal_three_tiers [of 190 15 ?xs] m by simp
  have mid: "\<not> shouldAcceptDeal ?xs 160 8"
    using shouldAcceptDeal_three_tiers [of 160 8 ?xs] m by simp
  have late: "\<not> shouldAcceptDeal ?xs 150 3"
    using shouldAcceptDeal_three_tiers [of 150 3 ?xs] m r150 by simp
  have late2: "shouldAcceptDeal ?xs 170 3"
    using shouldAcceptDeal_three_tiers [of 170 3 ?xs] m by simp
  show ?thesis using early mid late late2 by simp
qed

text \<open>
  Claim C6. The advisor's standard deviation is the population standard deviation: the
  sum of the squared deviations from the mean, divided by the count (not the count minus
  one), under the square root; it is 0 whenever fewer than 2 values remain.
\<close>

theorem calculateStandardDeviation_is_population:
  "(xs \<noteq> [] \<longrightarrow> calculateStandardDeviation xs = spec_populationStdDev xs)
   \<and> (length xs < 2 \<longrightarrow> calculateStandardDeviation xs = 0)"
proof (intro conjI impI)
  assume ne: "xs \<noteq> []"
  show "calculateStandardDeviation xs = spec_populationStdDev xs"
  proof (cases "2 \<le> length xs")
    case True
    then show ?thesis by (rule calculateStandardDeviation_population)
  next
    case False
    moreover from ne have "length xs \<noteq> 0"
      by simp
    ultimately have "length xs = 1"
      by linarith
    then obtain x where xs: "xs = [x]"
      by (auto simp: length_Suc_conv)
    show ?thesis
      by (simp add: xs calculateStandardDeviation_def spec_populationStdDev_def spec_mean_def)
  qed
next
  assume "length xs < 2"
  then show "calculateStandardDeviation xs = 0"
    by (simp add: calculateStandardDeviation_def)
qed

theorem calculateStandardDeviation_is_population_witness:
  "calculateStandardDeviation [1, 3] = 1 \<and> calculateStandardDeviation [5] = 0
   \<and> calculateStandardDeviation [] = 0"
proof -
  have p: "spec_populationStdDev [1, 3] = 1"
    by (simp add: spec_populationStdDev_def spec_mean_def)
  show ?thesis
    using calculateStandardDeviation_is_population [of "[1, 3]"]
      calculateStandardDeviation_is_population [of "[5]"]
      calculateStandardDeviation_is_population [of "[]"] p
    by simp
qed

subsection \<open>The hidden prizes\<close>

lemma remainingPrizes_update:
  "remainingPrizes (updateRemainingPrizes g) = rev (sort (hiddenValues g))"
  by (simp add: updateRemainingPrizes_def hiddenValues_def)

lemma updateRemainingPrizes_fields:
  "caseValues (updateRemainingPrizes g) = caseValues g"
  "casesOpened (updateRemainingPrizes g) = casesOpened g"
  "playerCase (updateRemainingPrizes g) = playerCase g"
  "round_no (updateRemainingPrizes g) = round_no g"
  "finalWinning (updateRemainingPrizes g) = finalWinning g"
  "stats (updateRemainingPrizes g) = stats g"
  by (simp_all add: updateRemainingPrizes_def)

lemma count_positions:
  "length (filter (\<lambda>i. P (co ! i)) [0..<length co]) = length (filter P co)"
proof -
  have "filter P (map (\<lambda>i. co ! i) [0..<length co])
          = map (\<lambda>i. co ! i) (filter (\<lambda>i. P (co ! i)) [0..<length co])"
    by (simp add: filter_map o_def)
  then have "length (filter P (map (\<lambda>i. co ! i) [0..<length co]))
          = length (filter (\<lambda>i. P (co ! i)) [0..<length co])"
    by simp
  then show ?thesis
    by (simp add: map_nth)
qed

lemma hidden_plus_opened:
  assumes "length (casesOpened g) = 26"
  shows "length (hiddenValues g) + openedCount g = 26"
proof -
  have "length (filter (\<lambda>i. casesOpened g ! i) [0..<26])
          + length (filter (\<lambda>i. \<not> casesOpened g ! i) [0..<26]) = length [0..<26]"
    by (rule sum_length_filter_compl)
  moreover have "length (filter (\<lambda>i. casesOpened g ! i) [0..<26]) = openedCount g"
    using count_positions [of "\<lambda>b. b" "casesOpened g"] assms
    by (simp add: openedCount_def)
  ultimately show ?thesis
    by (simp add: hiddenValues_def)
qed

lemma sorted_descending_rev_sort: "sorted_wrt (\<ge>) (rev (sort (xs::real list)))"
  by (simp add: sorted_wrt_rev)

lemma count_after_marking:
  "i < length co \<Longrightarrow> \<not> co ! i \<Longrightarrow>
     length (filter (\<lambda>b. b) (co[i := True])) = Suc (length (filter (\<lambda>b. b) co))"
proof (induction co arbitrary: i)
  case Nil
  then show ?case by simp
next
  case (Cons b co)
  then show ?case by (cases i) auto
qed

lemma openLoop_fields:
  "openLoop cs g = Inr g' \<Longrightarrow>
     caseValues g' = caseValues g \<and> remainingPrizes g' = remainingPrizes g
     \<and> playerCase g' = playerCase g \<and> round_no g' = round_no g
     \<and> finalWinning g' = finalWinning g \<and> stats g' = stats g
     \<and> length (casesOpened g') = length (casesOpened g)"
  by (induction cs arbitrary: g) (auto split: if_splits)

lemma openLoop_count:
  "length (casesOpened g) = 26 \<Longrightarrow> openLoop cs g = Inr g' \<Longrightarrow>
     openedCount g' = openedCount g + length cs"
proof (induction cs arbitrary: g)
  case Nil
  then show ?case by simp
next
  case (Cons c cs)
  let ?g1 = "g\<lparr>casesOpened := (casesOpened g)[nat c := True]\<rparr>"
  from Cons.prems have c: "0 \<le> c" "c < 26" "\<not> casesOpened g ! nat c"
    and rest: "openLoop cs ?g1 = Inr g'"
    by (auto split: if_splits)
  from c Cons.prems(1) have "openedCount ?g1 = Suc (openedCount g)"
    by (simp add: openedCount_def count_after_marking)
  moreover have "openedCount g' = openedCount ?g1 + length cs"
    using Cons.IH [of ?g1] Cons.prems(1) rest by simp
  ultimately show ?case by simp
qed

lemma openCases_Inr:
  "openCases cs g = Inr g' \<Longrightarrow> \<exists>g1. openLoop cs g = Inr g1 \<and> g' = updateRemainingPrizes g1"
  by (auto simp: openCases_def split: sum.splits)

text \<open>
  Claim C4. In a game where K cases are marked open, the hidden prizes as
  \<^verbatim>\<open>updateRemainingPrizes\<close> computes them are exactly 26 - K values, sorted in descending
  order: the values behind the cases not opened, the player's own case among them. After
  a call of \<^verbatim>\<open>openCases\<close> that returns, K has grown by the number of cases passed, and the
  stored list has 26 - K entries in descending order.
\<close>

theorem hiddenPrizes_count_sorted:
  "length (casesOpened g) = 26 \<Longrightarrow>
     openedCount g \<le> 26
     \<and> length (remainingPrizes (updateRemainingPrizes g)) = 26 - openedCount g
     \<and> sorted_wrt (\<ge>) (remainingPrizes (updateRemainingPrizes g))
     \<and> mset (remainingPrizes (updateRemainingPrizes g)) = mset (hiddenValues g)
     \<and> (0 \<le> playerCase g \<and> playerCase g < 26 \<and> \<not> casesOpened g ! nat (playerCase g) \<longrightarrow>
          caseValues g ! nat (playerCase g) \<in> set (remainingPrizes (updateRemainingPrizes g)))
     \<and> (\<forall>cs g'. openCases cs g = Inr g' \<longrightarrow>
          openedCount g' = openedCount g + length cs
          \<and> length (remainingPrizes g') = 26 - openedCount g'
          \<and> sorted_wrt (\<ge>) (remainingPrizes g'))"
proof (intro conjI allI impI)
  assume len: "length (casesOpened g) = 26"
  from hidden_plus_opened [OF len] show "openedCount g \<le> 26"
    by simp
  from hidden_plus_opened [OF len]
  show "length (remainingPrizes (updateRemainingPrizes g)) = 26 - openedCount g"
    by (simp add: remainingPrizes_update)
  show "sorted_wrt (\<ge>) (remainingPrizes (updateRemainingPrizes g))"
    by (simp only: remainingPrizes_update sorted_descending_rev_sort)
  show "mset (remainingPrizes (updateRemainingPrizes g)) = mset (hiddenValues g)"
    by (simp add: remainingPrizes_update)
next
  assume len: "length (casesOpened g) = 26"
    and pc: "0 \<le> playerCase g \<and> playerCase g < 26 \<and> \<not> casesOpened g ! nat (playerCase g)"
  then have "nat (playerCase g) \<in> set (filter (\<lambda>i. \<not> casesOpened g ! i) [0..<26])"
    by auto
  then have "caseValues g ! nat (playerCase g) \<in> set (hiddenValues g)"
    unfolding hiddenValues_def by (simp only: set_map) (rule imageI)
  then show "caseValues g ! nat (playerCase g) \<in> set (remainingPrizes (updateRemainingPrizes g))"
    by (simp add: remainingPrizes_update)
next
  fix cs g'
  assume len: "length (casesOpened g) = 26" and ok: "openCases cs g = Inr g'"
  from openCases_Inr [OF ok] obtain g1
    where g1: "openLoop cs g = Inr g1" and g': "g' = updateRemainingPrizes g1"
    by blast
  from openLoop_fields [OF g1] len have len1: "length (casesOpened g1) = 26"
    by simp
  have c1: "openedCount g' = openedCount g1"
    by (simp add: g' openedCount_def updateRemainingPrizes_fields)
  with openLoop_count [OF len g1] show "openedCount g' = openedCount g + length cs"
    by simp
  from hidden_plus_opened [OF len1] c1
  show "length (remainingPrizes g') = 26 - openedCount g'"
    by (simp add: g' remainingPrizes_update)
  show "sorted_wrt (\<ge>) (remainingPrizes g')"
    by (simp only: g' remainingPrizes_update sorted_descending_rev_sort)
qed

theorem hiddenPrizes_count_sorted_witness:
  "length (remainingPrizes (updateRemainingPrizes exampleGame)) = 26
   \<and> (\<exists>g'. openCases [3, 7] exampleGame = Inr g' \<and> openedCount g' = 2
          \<and> length (remainingPrizes g') = 24)
   \<and> caseValues exampleGame ! nat (playerCase exampleGame)
        \<in> set (remainingPrizes (updateRemainingPrizes exampleGame))"
proof -
  have len: "length (casesOpened exampleGame) = 26"
    by (simp add: exampleGame_def)
  have zero: "openedCount exampleGame = 0"
    by (simp add: openedCount_def exampleGame_def)
  have pc: "0 \<le> playerCase exampleGame \<and> playerCase exampleGame < 26
      \<and> \<not> casesOpened exampleGame ! nat (playerCase exampleGame)"
    by (simp add: exampleGame_def)
  have "\<exists>g'. openCases [3, 7] exampleGame = Inr g'"
    by (simp add: openCases_def exampleGame_def)
  then obtain g' where ok: "openCases [3, 7] exampleGame = Inr g'"
    by blast
  show ?thesis
    using hiddenPrizes_count_sorted [OF len] zero pc ok
    by auto
qed

subsection \<open>Opening a case that cannot be opened\<close>

lemma nth_mark: "i < length co \<Longrightarrow> (co[k := True]) ! i = (i = k \<or> co ! i)"
  by (cases "i = k") simp_all


lemma markOpen_simps [simp]:
  "markOpen [] opened = opened"
  "markOpen (c # cs) opened = markOpen cs (opened[nat c := True])"
  by (simp_all add: markOpen_def)

lemma markOpen_length [simp]: "length (markOpen cs opened) = length opened"
  by (induction cs arbitrary: opened) simp_all






subsection \<open>Sampling the cases to open\<close>

lemma fst_std_shuffle:
  "fst (std_shuffle sh xs rng) = map (\<lambda>i. xs ! i) (fst (sh rng (length xs)))"
  by (simp add: std_shuffle_def split: prod.splits)

lemma std_shuffle_mset:
  "permuting sh \<Longrightarrow> mset (fst (std_shuffle sh xs rng)) = mset xs"
proof -
  assume "permuting sh"
  then have p: "mset (fst (sh rng (length xs))) = mset [0..<length xs]"
    by (simp add: permuting_def)
  have "mset (map (\<lambda>i. xs ! i) (fst (sh rng (length xs))))
          = image_mset (\<lambda>i. xs ! i) (mset (fst (sh rng (length xs))))"
    by simp
  also have "\<dots> = mset (map (\<lambda>i. xs ! i) [0..<length xs])"
    by (simp only: p mset_map)
  also have "\<dots> = mset xs"
    by (simp add: map_nth)
  finally show ?thesis
    by (simp only: fst_std_shuffle)
qed

lemma availableCases_distinct:
  "distinct (map int (filter (\<lambda>i. \<not> opened ! i) [0..<length opened]))"
  by (simp add: distinct_map inj_on_def)

lemma availableCases_set:
  "c \<in> set (map int (filter (\<lambda>i. \<not> opened ! i) [0..<length opened]))
     \<Longrightarrow> 0 \<le> c \<and> nat c < length opened \<and> \<not> opened ! nat c"
  by auto

lemma availableCases_length:
  "length (map int (filter (\<lambda>i. \<not> opened ! i) [0..<length opened])) = unopenedCount opened"
  using count_positions [of "\<lambda>b. \<not> b" opened] by (simp add: unopenedCount_def)

lemma selectCasesToOpen_take:
  "fst (selectCasesToOpen sh opened numToOpen rng)
     = take (nat (min numToOpen (int (length (fst (std_shuffle sh
         (map int (filter (\<lambda>i. \<not> opened ! i) [0..<length opened])) rng))))))
         (fst (std_shuffle sh (map int (filter (\<lambda>i. \<not> opened ! i) [0..<length opened])) rng))"
  by (simp add: selectCasesToOpen_def Let_def split: prod.splits)

lemma selectCasesToOpen_props:
  "permuting sh \<Longrightarrow>
     distinct (fst (selectCasesToOpen sh opened numToOpen rng))
     \<and> (\<forall>c \<in> set (fst (selectCasesToOpen sh opened numToOpen rng)).
           0 \<le> c \<and> nat c < length opened \<and> \<not> opened ! nat c)
     \<and> length (fst (selectCasesToOpen sh opened numToOpen rng))
           = nat (min numToOpen (int (unopenedCount opened)))"
proof -
  assume sh: "permuting sh"
  let ?avail = "map int (filter (\<lambda>i. \<not> opened ! i) [0..<length opened])"
  let ?shuffled = "fst (std_shuffle sh ?avail rng)"
  let ?sel = "fst (selectCasesToOpen sh opened numToOpen rng)"
  have m: "mset ?shuffled = mset ?avail"
    by (rule std_shuffle_mset [OF sh])
  have d: "distinct ?shuffled"
    using m availableCases_distinct [of opened] by (metis mset_eq_imp_distinct_iff)
  have s: "set ?shuffled = set ?avail"
    using m by (rule mset_eq_setD)
  have l: "length ?shuffled = unopenedCount opened"
    using m availableCases_length [of opened] by (metis size_mset)
  have sel: "?sel = take (nat (min numToOpen (int (length ?shuffled)))) ?shuffled"
    by (rule selectCasesToOpen_take)
  have 1: "distinct ?sel"
    using d by (simp only: sel distinct_take)
  have 2: "\<forall>c \<in> set ?sel. 0 \<le> c \<and> nat c < length opened \<and> \<not> opened ! nat c"
  proof
    fix c assume "c \<in> set ?sel"
    then have "c \<in> set ?shuffled"
      by (simp only: sel) (rule in_set_takeD)
    with s have "c \<in> set ?avail" by simp
    then show "0 \<le> c \<and> nat c < length opened \<and> \<not> opened ! nat c"
      by (rule availableCases_set)
  qed
  have 3: "length ?sel = nat (min numToOpen (int (unopenedCount opened)))"
    by (simp only: sel length_take l)
  from 1 2 3 show ?thesis by blast
qed

text \<open>
  Claim C7. For every opened-set and every requested count, \<^verbatim>\<open>selectCasesToOpen\<close> returns
  a list with no case marked open, with no duplicate, and with exactly
  min(count, number of unopened cases) entries (none when the count is negative).
\<close>

theorem selectCasesToOpen_sample:
  "permuting sh \<Longrightarrow>
     distinct (fst (selectCasesToOpen sh opened numToOpen rng))
     \<and> (\<forall>c \<in> set (fst (selectCasesToOpen sh opened numToOpen rng)).
           0 \<le> c \<and> nat c < length opened \<and> \<not> opened ! nat c)
     \<and> length (fst (selectCasesToOpen sh opened numToOpen rng))
           = nat (min numToOpen (int (unopenedCount opened)))
     \<and> (0 \<le> numToOpen \<longrightarrow>
           int (length (fst (selectCasesToOpen sh opened numToOpen rng)))
             = min numToOpen (int (unopenedCount opened)))"
  using selectCasesToOpen_props [of sh opened numToOpen rng] by simp

lemma permuting_keepOrder: "permuting keepOrder"
  by (simp add: permuting_def keepOrder_def)

lemma permuting_reverseOrder: "permuting reverseOrder"
  by (simp add: permuting_def reverseOrder_def)

theorem selectCasesToOpen_sample_witness:
  "permuting reverseOrder
   \<and> fst (selectCasesToOpen reverseOrder [False, True, False, False] 2 ()) = [3, 2]
   \<and> distinct (fst (selectCasesToOpen reverseOrder [False, True, False, False] 2 ()))
   \<and> length (fst (selectCasesToOpen reverseOrder [False, True, False, False] 7 ())) = 3"
proof -
  have u: "unopenedCount [False, True, False, False] = 3"
    by (simp add: unopenedCount_def)
  have e: "fst (selectCasesToOpen reverseOrder [False, True, False, False] 2 ()) = [3, 2]"
    by (simp add: selectCasesToOpen_def std_shuffle_def reverseOrder_def upt_rec)
  show ?thesis
    using selectCasesToOpen_sample [OF permuting_reverseOrder, of "[False, True, False, False]" 2 "()"]
      selectCasesToOpen_sample [OF permuting_reverseOrder, of "[False, True, False, False]" 7 "()"]
      permuting_reverseOrder u e
    by simp
qed

subsection \<open>The readers and the selection loops\<close>

lemma getValidInput_range:
  "getValidInput lo hi input = Some (n, rest) \<Longrightarrow> lo \<le> n \<and> n \<le> hi \<and> set rest \<subseteq> set input"
  by (induction lo hi input rule: getValidInput.induct) (auto split: if_splits)


lemma chooseCase_valid:
  "chooseCase g sel input = Some (c, rest) \<Longrightarrow>
     0 \<le> c \<and> c < 26 \<and> c \<noteq> playerCase g \<and> \<not> casesOpened g ! nat c \<and> c \<notin> set sel
     \<and> set rest \<subseteq> set input"
proof (induction "length input" arbitrary: input rule: less_induct)
  case less
  from less.prems obtain n rest0 where gv: "getValidInput 1 26 input = Some (n, rest0)"
    by (auto simp: chooseCase.simps [of g sel input] split: option.splits)
  from getValidInput_range [OF gv] have n: "1 \<le> n" "n \<le> 26" and sub: "set rest0 \<subseteq> set input"
    by auto
  show ?case
  proof (cases "n - 1 = playerCase g \<or> casesOpened g ! nat (n - 1) \<or> n - 1 \<in> set sel")
    case True
    with less.prems gv have again: "chooseCase g sel rest0 = Some (c, rest)"
      by (auto simp: chooseCase.simps [of g sel input] Let_def split: if_splits)
    from getValidInput_shorter [OF gv] have "length rest0 < length input" .
    from less.hyps [OF this again] sub show ?thesis
      by auto
  next
    case False
    with less.prems gv have "c = n - 1" "rest = rest0"
      by (auto simp: chooseCase.simps [of g sel input] Let_def split: if_splits)
    with False n sub show ?thesis by auto
  qed
qed

lemma selectRound_valid:
  "selectRound k g sel input = Some (cs, rest) \<Longrightarrow> distinct sel \<Longrightarrow>
     \<forall>c \<in> set sel. openable g c \<Longrightarrow>
     distinct cs \<and> (\<forall>c \<in> set cs. openable g c) \<and> length cs = length sel + k
     \<and> set rest \<subseteq> set input"
proof (induction k arbitrary: sel input)
  case 0
  then show ?case by simp
next
  case (Suc k)
  from Suc.prems(1) obtain c rest0 where ch: "chooseCase g sel input = Some (c, rest0)"
    and more: "selectRound k g (sel @ [c]) rest0 = Some (cs, rest)"
    by (auto split: option.splits)
  from chooseCase_valid [OF ch] have c: "openable g c" "c \<notin> set sel" "set rest0 \<subseteq> set input"
    by (auto simp: openable_def)
  from c Suc.prems have "distinct (sel @ [c])" "\<forall>x \<in> set (sel @ [c]). openable g x"
    by auto
  from Suc.IH [OF more this] c(3) show ?case by auto
qed

lemma openLoop_succeeds:
  "length (casesOpened g) = 26 \<Longrightarrow> distinct cs \<Longrightarrow>
     \<forall>c \<in> set cs. 0 \<le> c \<and> c < 26 \<and> \<not> casesOpened g ! nat c \<Longrightarrow>
     \<exists>g1. openLoop cs g = Inr g1
        \<and> (\<forall>i < 26. casesOpened g1 ! i = (casesOpened g ! i \<or> int i \<in> set cs))"
proof (induction cs arbitrary: g)
  case Nil
  then show ?case by simp
next
  case (Cons a cs)
  let ?g1 = "g\<lparr>casesOpened := (casesOpened g)[nat a := True]\<rparr>"
  from Cons.prems have a: "0 \<le> a" "a < 26" "\<not> casesOpened g ! nat a" "a \<notin> set cs"
    by auto
  have len: "length (casesOpened ?g1) = 26"
    using Cons.prems(1) by simp
  have "\<forall>c \<in> set cs. 0 \<le> c \<and> c < 26 \<and> \<not> casesOpened ?g1 ! nat c"
  proof
    fix c assume c: "c \<in> set cs"
    with Cons.prems(3) have r: "0 \<le> c" "c < 26" "\<not> casesOpened g ! nat c"
      by auto
    from c a(4) have "c \<noteq> a" by auto
    with r a(1) have "nat c \<noteq> nat a" by simp
    with r Cons.prems(1) show "0 \<le> c \<and> c < 26 \<and> \<not> casesOpened ?g1 ! nat c"
      by (simp add: nth_mark)
  qed
  with Cons.IH [of ?g1] len Cons.prems(2) obtain g1
    where g1: "openLoop cs ?g1 = Inr g1"
      and co: "\<forall>i < 26. casesOpened g1 ! i = (casesOpened ?g1 ! i \<or> int i \<in> set cs)"
    by auto
  from a g1 have "openLoop (a # cs) g = Inr g1"
    by simp
  moreover have "\<forall>i < 26. casesOpened g1 ! i = (casesOpened g ! i \<or> int i \<in> set (a # cs))"
  proof (intro allI impI)
    fix i :: nat assume i: "i < 26"
    from a(1) have "(i = nat a) = (int i = a)" by auto
    with co i Cons.prems(1) show "casesOpened g1 ! i = (casesOpened g ! i \<or> int i \<in> set (a # cs))"
      by (auto simp: nth_mark)
  qed
  ultimately show ?case by blast
qed

lemma openCases_inPlay:
  assumes g: "inPlay g" and d: "distinct cs" and ok: "\<forall>c \<in> set cs. openable g c"
  shows "\<exists>g1. openCases cs g = Inr g1 \<and> inPlay g1
           \<and> playerCase g1 = playerCase g \<and> caseValues g1 = caseValues g
           \<and> round_no g1 = round_no g \<and> stats g1 = stats g
           \<and> openedCount g1 = openedCount g + length cs
           \<and> (\<forall>i < 26. casesOpened g1 ! i = (casesOpened g ! i \<or> int i \<in> set cs))"
proof -
  from g have len: "length (casesOpened g) = 26"
    by (simp add: inPlay_def)
  from ok have "\<forall>c \<in> set cs. 0 \<le> c \<and> c < 26 \<and> \<not> casesOpened g ! nat c"
    by (simp add: openable_def)
  from openLoop_succeeds [OF len d this] obtain g0
    where g0: "openLoop cs g = Inr g0"
      and co: "\<forall>i < 26. casesOpened g0 ! i = (casesOpened g ! i \<or> int i \<in> set cs)"
    by blast
  let ?g1 = "updateRemainingPrizes g0"
  have o: "openCases cs g = Inr ?g1"
    by (simp add: openCases_def g0)
  note f = openLoop_fields [OF g0]
  from g have pc: "0 \<le> playerCase g" "playerCase g < 26" "\<not> casesOpened g ! nat (playerCase g)"
    by (simp_all add: inPlay_def)
  from ok have "playerCase g \<notin> set cs"
    by (auto simp: openable_def)
  with co pc have "\<not> casesOpened g0 ! nat (playerCase g)"
    by simp
  with g f have "inPlay ?g1"
    by (simp add: inPlay_def updateRemainingPrizes_fields remainingPrizes_update hiddenValues_def)
  moreover have "openedCount ?g1 = openedCount g + length cs"
    using openLoop_count [OF len g0] by (simp add: openedCount_def updateRemainingPrizes_fields)
  ultimately show ?thesis
    using o f co by (simp add: updateRemainingPrizes_fields)
qed

subsection \<open>The round loops keep the game in play\<close>

lemma run_parts [simp]:
  "history (h, fin, e) = h" "final_state (h, fin, e) = fin" "ending_of (h, fin, e) = e"
  by (simp_all add: history_def final_state_def ending_of_def)

lemma after_round_parts [simp]:
  "history (after_round x r) = x # history r"
  "final_state (after_round x r) = final_state r"
  "ending_of (after_round x r) = ending_of r"
  by (simp_all add: after_round_def history_def final_state_def ending_of_def split: prod.splits)

lemma allPrizes_length: "length allPrizes = 26"
  by (simp add: allPrizes_def)

lemma allPrizes_positive: "\<forall>p \<in> set allPrizes. 0 < p"
proof -
  have "list_all (\<lambda>p. 0 < p) allPrizes"
    by (simp add: allPrizes_def)
  then show ?thesis
    by (simp only: list_all_iff)
qed

lemma inPlay_value_positive:
  assumes "inPlay g" and "i < 26"
  shows "0 < caseValues g ! i"
proof -
  from assms have "caseValues g ! i \<in> set (caseValues g)"
    by (simp add: inPlay_def)
  moreover from assms(1) have "mset (caseValues g) = mset allPrizes"
    by (simp add: inPlay_def)
  then have "set (caseValues g) = set allPrizes"
    by (rule mset_eq_setD)
  ultimately have "caseValues g ! i \<in> set allPrizes"
    by simp
  with allPrizes_positive show ?thesis
    by blast
qed

lemma inPlay_hidden_positive:
  assumes "inPlay g"
  shows "\<forall>p \<in> set (remainingPrizes g). 0 < p"
proof
  fix p assume "p \<in> set (remainingPrizes g)"
  with assms have "p \<in> set (hiddenValues g)"
    by (simp add: inPlay_def)
  then obtain i where "i < 26" "p = caseValues g ! i"
    by (auto simp: hiddenValues_def)
  with inPlay_value_positive [OF assms] show "0 < p"
    by simp
qed

lemma sum_list_positive: "xs \<noteq> [] \<Longrightarrow> \<forall>p \<in> set xs. (0::real) < p \<Longrightarrow> 0 < sum_list xs"
proof (induction xs)
  case Nil
  then show ?case by simp
next
  case (Cons x xs)
  then show ?case
    by (cases xs) (auto intro: add_pos_pos)
qed

lemma offer_positive:
  assumes g: "inPlay g" and ne: "remainingPrizes g \<noteq> []"
  shows "0 < calculateBankOffer g"
proof -
  let ?a = "sum_list (remainingPrizes g) / real (length (remainingPrizes g))"
  let ?p = "0.1 + real_of_int (round_no g) * 0.05 :: real"
  from sum_list_positive [OF ne inPlay_hidden_positive [OF g]]
  have s: "0 < sum_list (remainingPrizes g)" .
  from ne have l: "0 < real (length (remainingPrizes g))"
    by simp
  from s l have a: "0 < ?a"
    by (rule divide_pos_pos)
  from g have "1 \<le> round_no g"
    by (simp add: inPlay_def)
  then have p: "0 < ?p"
    by simp
  show ?thesis
  proof (cases "?p > 0.9")
    case True
    with ne have "calculateBankOffer g = ?a * 0.9"
      by (simp add: calculateBankOffer_def Let_def fold_plus_sum_list)
    also from a have "0 < ?a * 0.9"
      by (rule mult_pos_pos) simp
    finally show ?thesis .
  next
    case False
    with ne have "calculateBankOffer g = ?a * ?p"
      by (simp add: calculateBankOffer_def Let_def fold_plus_sum_list)
    also from a p have "0 < ?a * ?p"
      by (rule mult_pos_pos)
    finally show ?thesis .
  qed
qed

lemma inPlay_hidden_count:
  "inPlay g \<Longrightarrow> length (remainingPrizes g) + openedCount g = 26"
  using hidden_plus_opened [of g] by (simp add: inPlay_def)

lemma inPlay_next_round: "inPlay g \<Longrightarrow> inPlay (g\<lparr>round_no := round_no g + 1\<rparr>)"
  by (simp add: inPlay_def hiddenValues_def)

lemma shufflePrizes_inPlay:
  assumes sh: "permuting sh" and pc: "0 \<le> pc" "pc < 26"
  shows "inPlay (fst (shufflePrizes sh rng (g\<lparr>playerCase := pc\<rparr>))\<lparr>round_no := 1\<rparr>)
     \<and> playerCase (fst (shufflePrizes sh rng (g\<lparr>playerCase := pc\<rparr>))) = pc
     \<and> stats (fst (shufflePrizes sh rng (g\<lparr>playerCase := pc\<rparr>))) = stats g
     \<and> openedCount (fst (shufflePrizes sh rng (g\<lparr>playerCase := pc\<rparr>))) = 0"
proof -
  let ?cv = "fst (std_shuffle sh allPrizes rng)"
  let ?g0 = "g\<lparr>playerCase := pc, caseValues := ?cv, casesOpened := replicate 26 False\<rparr>"
  have e: "fst (shufflePrizes sh rng (g\<lparr>playerCase := pc\<rparr>)) = updateRemainingPrizes ?g0"
    by (simp add: shufflePrizes_def split: prod.splits)
  have m: "mset ?cv = mset allPrizes"
    by (rule std_shuffle_mset [OF sh])
  from mset_eq_length [OF m] have l: "length ?cv = 26"
    by (simp only: allPrizes_length)
  from pc have "nat pc < 26" by simp
  then have n: "\<not> replicate 26 False ! nat pc"
    by simp
  show ?thesis
    using m l n pc
    by (simp add: e inPlay_def updateRemainingPrizes_fields remainingPrizes_update
        hiddenValues_def openedCount_def)
qed

lemma sound_finalReveal:
  assumes "inPlay g"
  shows "sound_run g n (finalReveal g)"
proof -
  from assms have "0 \<le> playerCase g" "playerCase g < 26"
    by (simp_all add: inPlay_def)
  then have "nat (playerCase g) < 26"
    by linarith
  from inPlay_value_positive [OF assms this] assms show ?thesis
    by (simp add: sound_run_def sound_end_def finalReveal_def Let_def inPlay_def)
qed

lemma sound_acceptDeal: "inPlay g \<Longrightarrow> 0 < won \<Longrightarrow> sound_run g n (acceptDeal won g)"
  by (simp add: sound_run_def sound_end_def acceptDeal_def inPlay_def)

lemma sound_blocked: "inPlay g \<Longrightarrow> sound_run g n ([], g, None)"
  by (simp add: sound_run_def sound_end_def inPlay_def)

lemma sound_round_no: "sound_run (g\<lparr>round_no := k\<rparr>) n r = sound_run g n r"
  by (simp add: sound_run_def sound_end_def split: option.splits ending.splits)

lemma sound_end_agree:
  "sound_end g1 fin e \<Longrightarrow> playerCase g1 = playerCase g \<Longrightarrow> caseValues g1 = caseValues g \<Longrightarrow>
     stats g1 = stats g \<Longrightarrow> sound_end g fin e"
  by (auto simp: sound_end_def split: option.splits ending.splits)

lemma sound_after_round:
  assumes r: "sound_run g1 n r" and g1: "inPlay g1"
    and f: "playerCase g1 = playerCase g" "caseValues g1 = caseValues g" "stats g1 = stats g"
    and x: "after x = g1" "playerCase g \<notin> set (passed x)"
  shows "sound_run g (Suc n) (after_round x r)"
proof -
  from r have "sound_end g1 (final_state r) (ending_of r)"
    by (simp add: sound_run_def)
  from sound_end_agree [OF this f] have "sound_end g (final_state r) (ending_of r)" .
  with r g1 f x show ?thesis
    by (simp add: sound_run_def)
qed

lemma humanRounds_sound:
  "inPlay g \<Longrightarrow> sound_run g (length schedule) (humanRounds schedule input g)"
proof (induction schedule arbitrary: input g)
  case Nil
  then show ?case by (simp add: sound_finalReveal)
next
  case (Cons roundCases schedule)
  note g = Cons.prems
  show ?case
  proof (cases "length (remainingPrizes g) \<le> 1")
    case True
    with g show ?thesis by (simp add: sound_finalReveal)
  next
    case False
    show ?thesis
    proof (cases "selectRound (nat roundCases) g [] input")
      case None
      with False g show ?thesis by (simp add: sound_blocked)
    next
      case (Some picked)
      obtain cs input1 where picked: "picked = (cs, input1)"
        by (cases picked)
      from selectRound_valid [OF Some [unfolded picked]]
      have d: "distinct cs" and ok: "\<forall>c \<in> set cs. openable g c"
        by auto
      from openCases_inPlay [OF g d ok] obtain g1
        where o: "openCases cs g = Inr g1" and g1: "inPlay g1"
          and f: "playerCase g1 = playerCase g" "caseValues g1 = caseValues g"
            "stats g1 = stats g"
        by blast
      from ok have notpc: "playerCase g \<notin> set cs"
        by (auto simp: openable_def)
      let ?x = "\<lparr>scheduled = roundCases, selected = cs, passed = cs, after = g1\<rparr>"
      let ?r = "if length (remainingPrizes g1) \<le> 1 then finalReveal g1
                else
                  let bankOffer = calculateBankOffer g1
                  in case getYesNoInput input1 of
                       None \<Rightarrow> ([], g1, None)
                     | Some (deal, input2) \<Rightarrow>
                         if deal then acceptDeal bankOffer g1
                         else humanRounds schedule input2 (g1\<lparr>round_no := round_no g1 + 1\<rparr>)"
      have e: "humanRounds (roundCases # schedule) input g = after_round ?x ?r"
        using False Some picked o by simp
      have r: "sound_run g1 (length schedule) ?r"
      proof (cases "length (remainingPrizes g1) \<le> 1")
        case True
        with g1 show ?thesis by (simp add: sound_finalReveal)
      next
        case many: False
        then have ne: "remainingPrizes g1 \<noteq> []" by auto
        show ?thesis
        proof (cases "getYesNoInput input1")
          case None
          with many g1 show ?thesis by (simp add: sound_blocked)
        next
          case (Some answer)
          obtain deal input2 where answer: "answer = (deal, input2)"
            by (cases answer)
          show ?thesis
          proof (cases deal)
            case True
            with many Some answer g1 offer_positive [OF g1 ne] show ?thesis
              by (simp add: sound_acceptDeal)
          next
            case False
            have "sound_run (g1\<lparr>round_no := round_no g1 + 1\<rparr>) (length schedule)
                    (humanRounds schedule input2 (g1\<lparr>round_no := round_no g1 + 1\<rparr>))"
              by (rule Cons.IH [OF inPlay_next_round [OF g1]])
            with many Some answer False show ?thesis
              by (simp add: sound_round_no)
          qed
        qed
      qed
      have ax: "after ?x = g1" and px: "playerCase g \<notin> set (passed ?x)"
        using notpc by simp_all
      have "sound_run g (Suc (length schedule)) (after_round ?x ?r)"
        by (rule sound_after_round [OF r g1 f ax px])
      then show ?thesis
        by (simp only: e list.size) simp
    qed
  qed
qed

lemma computerRounds_sound:
  "permuting sh \<Longrightarrow> inPlay g \<Longrightarrow>
     sound_run g (length schedule) (computerRounds sh schedule airng g)"
proof (induction schedule arbitrary: airng g)
  case Nil
  then show ?case by (simp add: sound_finalReveal)
next
  case (Cons roundCases schedule)
  note sh = Cons.prems(1) and g = Cons.prems(2)
  show ?case
  proof (cases "length (remainingPrizes g) \<le> 1")
    case True
    with g show ?thesis by (simp add: sound_finalReveal)
  next
    case False
    obtain sampled airng' where s: "selectCasesToOpen sh (casesOpened g) roundCases airng = (sampled, airng')"
      by (cases "selectCasesToOpen sh (casesOpened g) roundCases airng")
    let ?cs = "filter (\<lambda>c. c \<noteq> playerCase g) sampled"
    from selectCasesToOpen_props [OF sh, of "casesOpened g" roundCases airng] s g
    have d: "distinct sampled"
      and v: "\<forall>c \<in> set sampled. 0 \<le> c \<and> nat c < 26 \<and> \<not> casesOpened g ! nat c"
      by (simp_all add: inPlay_def)
    from d have d': "distinct ?cs" by simp
    from v have ok: "\<forall>c \<in> set ?cs. openable g c"
      by (auto simp: openable_def)
    from openCases_inPlay [OF g d' ok] obtain g1
      where o: "openCases ?cs g = Inr g1" and g1: "inPlay g1"
        and f: "playerCase g1 = playerCase g" "caseValues g1 = caseValues g"
          "stats g1 = stats g"
      by blast
    let ?x = "\<lparr>scheduled = roundCases, selected = sampled, passed = ?cs, after = g1\<rparr>"
    let ?r = "if length (remainingPrizes g1) \<le> 1 then finalReveal g1
              else
                let bankOffer = calculateBankOffer g1
                in if shouldAcceptDeal (remainingPrizes g1) bankOffer
                        (int (length (remainingPrizes g1)))
                   then acceptDeal bankOffer g1
                   else computerRounds sh schedule airng' (g1\<lparr>round_no := round_no g1 + 1\<rparr>)"
    have e: "computerRounds sh (roundCases # schedule) airng g = after_round ?x ?r"
      using False s o by (simp add: Let_def)
    have r: "sound_run g1 (length schedule) ?r"
    proof (cases "length (remainingPrizes g1) \<le> 1")
      case True
      with g1 show ?thesis by (simp add: sound_finalReveal)
    next
      case many: False
      then have ne: "remainingPrizes g1 \<noteq> []" by auto
      show ?thesis
      proof (cases "shouldAcceptDeal (remainingPrizes g1) (calculateBankOffer g1)
                      (int (length (remainingPrizes g1)))")
        case True
        with many g1 offer_positive [OF g1 ne] show ?thesis
          by (simp add: sound_acceptDeal)
      next
        case False
        have "sound_run (g1\<lparr>round_no := round_no g1 + 1\<rparr>) (length schedule)
                (computerRounds sh schedule airng' (g1\<lparr>round_no := round_no g1 + 1\<rparr>))"
          by (rule Cons.IH [OF sh inPlay_next_round [OF g1]])
        with many False show ?thesis
          by (simp add: sound_round_no)
      qed
    qed
    have ax: "after ?x = g1" and px: "playerCase g \<notin> set (passed ?x)"
      by simp_all
    have "sound_run g (Suc (length schedule)) (after_round ?x ?r)"
      by (rule sound_after_round [OF r g1 f ax px])
    then show ?thesis
      by (simp only: e list.size) simp
  qed
qed

lemma casesToOpenPerRound_length: "length casesToOpenPerRound = 9"
  by (simp add: casesToOpenPerRound_def)

lemma playGame_not_started:
  "getValidInput 1 26 input = None \<Longrightarrow> playGame sh rng input g = ([], g, None)"
  by (simp add: playGame_def)

lemma playGame_sound:
  assumes sh: "permuting sh" and gv: "getValidInput 1 26 input = Some (n, input1)"
  shows "\<exists>g. inPlay g \<and> stats g = loaded \<and> openedCount g = 0 \<and> round_no g = 1
            \<and> playerCase g = n - 1
            \<and> casesOpened g = replicate 26 False
            \<and> playGame sh rng input (newGame loaded) = humanRounds casesToOpenPerRound input1 g
            \<and> sound_run g 9 (playGame sh rng input (newGame loaded))"
proof -
  from getValidInput_range [OF gv] have pc: "0 \<le> n - 1" "n - 1 < 26"
    by auto
  let ?g1 = "fst (shufflePrizes sh rng (newGame loaded\<lparr>playerCase := n - 1\<rparr>))"
  let ?g = "?g1\<lparr>round_no := 1\<rparr>"
  from shufflePrizes_inPlay [OF sh pc, of rng "newGame loaded"]
  have g: "inPlay ?g" and st: "stats ?g = loaded" and oc: "openedCount ?g = 0"
    by (simp_all add: newGame_def openedCount_def)
  have e: "playGame sh rng input (newGame loaded) = humanRounds casesToOpenPerRound input1 ?g"
    using gv by (simp add: playGame_def split: prod.splits)
  from humanRounds_sound [OF g, of casesToOpenPerRound input1]
  have sr: "sound_run ?g 9 (playGame sh rng input (newGame loaded))"
    by (simp only: e casesToOpenPerRound_length)
  have pcg: "playerCase ?g = n - 1" and cog: "casesOpened ?g = replicate 26 False"
    by (simp_all add: shufflePrizes_def updateRemainingPrizes_fields split: prod.splits)
  with sr g st oc e show ?thesis
    by (intro exI [of _ ?g]) simp
qed

lemma computerPlay_sound:
  assumes sh: "permuting sh" and dr: "within_0_25 draw"
  shows "\<exists>g. inPlay g \<and> stats g = loaded \<and> openedCount g = 0 \<and> round_no g = 1
            \<and> playerCase g = fst (draw rng)
            \<and> casesOpened g = replicate 26 False
            \<and> computerPlay sh draw rng airng (newGame loaded)
                 = computerRounds sh casesToOpenPerRound airng g
            \<and> sound_run g 9 (computerPlay sh draw rng airng (newGame loaded))"
proof -
  from dr have pc: "0 \<le> fst (draw rng)" "fst (draw rng) < 26"
    by (simp_all add: within_0_25_def) (smt (verit))
  let ?g1 = "fst (shufflePrizes sh (snd (draw rng)) (newGame loaded\<lparr>playerCase := fst (draw rng)\<rparr>))"
  let ?g = "?g1\<lparr>round_no := 1\<rparr>"
  from shufflePrizes_inPlay [OF sh pc, of "snd (draw rng)" "newGame loaded"]
  have g: "inPlay ?g" and st: "stats ?g = loaded" and oc: "openedCount ?g = 0"
    and p: "playerCase ?g = fst (draw rng)"
    by (simp_all add: newGame_def openedCount_def)
  have e: "computerPlay sh draw rng airng (newGame loaded)
             = computerRounds sh casesToOpenPerRound airng ?g"
    by (simp add: computerPlay_def split: prod.splits)
  from computerRounds_sound [OF sh g, of casesToOpenPerRound airng]
  have sr: "sound_run ?g 9 (computerPlay sh draw rng airng (newGame loaded))"
    by (simp only: e casesToOpenPerRound_length)
  have cog: "casesOpened ?g = replicate 26 False"
    by (simp add: shufflePrizes_def updateRemainingPrizes_fields split: prod.splits)
  with sr g st oc e p show ?thesis
    by (intro exI [of _ ?g]) simp
qed

subsection \<open>Playing by a script\<close>

lemma chooseCase_typed:
  "openable g c \<Longrightarrow> c \<notin> set sel \<Longrightarrow> chooseCase g sel (typed c # rest) = Some (c, rest)"
  unfolding typed_def
  by (simp add: chooseCase.simps [of g sel "Number (c + 1) # rest"] openable_def)

lemma selectRound_typed:
  "distinct (sel @ cs) \<Longrightarrow> \<forall>c \<in> set cs. openable g c \<Longrightarrow>
     selectRound (length cs) g sel (map typed cs @ rest) = Some (sel @ cs, rest)"
proof (induction cs arbitrary: sel)
  case Nil
  then show ?case by simp
next
  case (Cons c cs)
  from Cons.prems have c: "openable g c" "c \<notin> set sel"
    by auto
  from Cons.prems have "distinct ((sel @ [c]) @ cs)" "\<forall>c \<in> set cs. openable g c"
    by auto
  from Cons.IH [OF this] chooseCase_typed [OF c] show ?case
    by simp
qed

lemma humanRounds_rejectAll:
  "inPlay g \<Longrightarrow> map (\<lambda>cs. int (length cs)) css = schedule \<Longrightarrow> distinct (concat css) \<Longrightarrow>
     \<forall>c \<in> set (concat css). openable g c \<Longrightarrow>
     openedCount g + length (concat css) \<le> 24 \<Longrightarrow>
     ending_of (humanRounds schedule (rejectAll css @ later) g)
       = Some (NoDealFinalReveal (caseValues g ! nat (playerCase g)))
     \<and> length (history (humanRounds schedule (rejectAll css @ later) g)) = length schedule"
proof (induction css arbitrary: schedule g)
  case Nil
  then show ?case by (simp add: finalReveal_def Let_def)
next
  case (Cons cs css)
  note g = Cons.prems(1)
  from Cons.prems(2) obtain rest where schedule: "schedule = int (length cs) # rest"
    and rest: "map (\<lambda>cs. int (length cs)) css = rest"
    by auto
  from Cons.prems(3) have d: "distinct cs" and dd: "distinct (concat css)"
    and disj: "set cs \<inter> set (concat css) = {}"
    by auto
  from Cons.prems(4) have ok: "\<forall>c \<in> set cs. openable g c"
    and ok': "\<forall>c \<in> set (concat css). openable g c"
    by auto
  from inPlay_hidden_count [OF g] Cons.prems(5) have many: "\<not> length (remainingPrizes g) \<le> 1"
    by simp
  have sel: "selectRound (nat (int (length cs))) g [] (rejectAll (cs # css) @ later)
               = Some (cs, No # rejectAll css @ later)"
    using selectRound_typed [of "[]" cs g "No # rejectAll css @ later"] d ok by simp
  from openCases_inPlay [OF g d ok] obtain g1
    where o: "openCases cs g = Inr g1" and g1: "inPlay g1"
      and f: "playerCase g1 = playerCase g" "caseValues g1 = caseValues g"
      and c1: "openedCount g1 = openedCount g + length cs"
      and co: "\<forall>i < 26. casesOpened g1 ! i = (casesOpened g ! i \<or> int i \<in> set cs)"
    by blast
  let ?g2 = "g1\<lparr>round_no := round_no g1 + 1\<rparr>"
  from inPlay_hidden_count [OF g1] c1 Cons.prems(5)
  have many1: "\<not> length (remainingPrizes g1) \<le> 1"
    by simp
  have e: "humanRounds schedule (rejectAll (cs # css) @ later) g
        = after_round \<lparr>scheduled = int (length cs), selected = cs, passed = cs, after = g1\<rparr>
            (humanRounds rest (rejectAll css @ later) ?g2)"
    using many sel o many1 by (simp add: schedule del: rejectAll.simps)
  have ok2: "\<forall>c \<in> set (concat css). openable ?g2 c"
  proof
    fix c assume c: "c \<in> set (concat css)"
    with ok' have a: "openable g c" by blast
    then have "0 \<le> c" "c < 26"
      by (simp_all add: openable_def)
    then have "nat c < 26" "int (nat c) = c"
      by linarith+
    moreover from c disj have "c \<notin> set cs" by blast
    ultimately have "casesOpened g1 ! nat c = casesOpened g ! nat c"
      using co by simp
    with a f show "openable ?g2 c"
      by (simp add: openable_def)
  qed
  have c2: "openedCount ?g2 + length (concat css) \<le> 24"
    using c1 Cons.prems(5) by (simp add: openedCount_def)
  from Cons.IH [OF inPlay_next_round [OF g1] rest dd ok2 c2] f show ?case
    by (simp only: e after_round_parts) (simp add: schedule)
qed


lemma casesToOpenPerRound_sum: "sum_list casesToOpenPerRound = 24"
  by (simp add: casesToOpenPerRound_def)

lemma batches_length:
  "map (\<lambda>cs. int (length cs)) css = schedule \<Longrightarrow> int (length (concat css)) = sum_list schedule"
  by (induction css arbitrary: schedule) auto


lemma playGame_scripted:
  assumes sh: "permuting sh" and pc: "0 \<le> pc" "pc < 26"
    and shape: "map (\<lambda>cs. int (length cs)) css = casesToOpenPerRound"
    and d: "distinct (concat css)"
    and ok: "\<forall>c \<in> set (concat css). 0 \<le> c \<and> c < 26 \<and> c \<noteq> pc"
  shows "ending_of (playGame sh rng (typed pc # rejectAll css @ later) (newGame loaded))
           = Some (NoDealFinalReveal
               (caseValues (final_state (playGame sh rng (typed pc # rejectAll css @ later)
                  (newGame loaded))) ! nat pc))
     \<and> playerCase (final_state (playGame sh rng (typed pc # rejectAll css @ later)
          (newGame loaded))) = pc
     \<and> length (history (playGame sh rng (typed pc # rejectAll css @ later) (newGame loaded))) = 9"
proof -
  let ?input = "typed pc # rejectAll css @ later"
  let ?r = "playGame sh rng ?input (newGame loaded)"
  have gv: "getValidInput 1 26 ?input = Some (pc + 1, rejectAll css @ later)"
    using pc by (simp add: typed_def)
  from playGame_sound [OF sh gv, of loaded rng] obtain g
    where g: "inPlay g" and oc: "openedCount g = 0" and pg: "playerCase g = pc"
      and co: "casesOpened g = replicate 26 False"
      and e: "?r = humanRounds casesToOpenPerRound (rejectAll css @ later) g"
      and sr: "sound_run g 9 ?r"
    by auto
  have ok': "\<forall>c \<in> set (concat css). openable g c"
  proof
    fix c assume "c \<in> set (concat css)"
    with ok have c: "0 \<le> c" "c < 26" "c \<noteq> pc" by auto
    then have "nat c < 26" by linarith
    then have "\<not> replicate 26 False ! nat c" by simp
    with c pg co show "openable g c"
      by (simp add: openable_def)
  qed
  from batches_length [OF shape] have "length (concat css) = 24"
    by (simp add: casesToOpenPerRound_sum)
  with oc have "openedCount g + length (concat css) \<le> 24"
    by simp
  from humanRounds_rejectAll [OF g shape d ok' this, of later]
  have "ending_of ?r = Some (NoDealFinalReveal (caseValues g ! nat (playerCase g)))"
    and "length (history ?r) = 9"
    by (simp_all only: e casesToOpenPerRound_length)
  moreover from sr have "playerCase (final_state ?r) = playerCase g"
    "caseValues (final_state ?r) = caseValues g"
    by (simp_all add: sound_run_def sound_end_def)
  ultimately show ?thesis
    using pg by simp
qed


lemma exampleBatches_shape:
  "map (\<lambda>cs. int (length cs)) exampleBatches = casesToOpenPerRound"
  "distinct (concat exampleBatches)"
  "\<forall>c \<in> set (concat exampleBatches). 0 \<le> c \<and> c < 26 \<and> c \<noteq> 0"
  by (simp_all add: exampleBatches_def casesToOpenPerRound_def)


subsection \<open>Two games played out\<close>

lemma upt26:
  "[0..<26] = [0, 1, 2, 3, 4, 5, 6, 7, 8, 9, 10, 11, 12, 13, 14, 15, 16, 17, 18, 19, 20, 21, 22,
     23, 24, 25]"
  by (simp add: upt_rec)

lemma replicate26:
  "replicate 26 False = [False, False, False, False, False, False, False, False, False, False,
     False, False, False, False, False, False, False, False, False, False, False, False, False,
     False, False, False]"
  by (simp add: numeral_eq_Suc)

text \<open>The example state is the state of a game that has just started.\<close>

lemma exampleGame_reached:
  "fst (shufflePrizes keepOrder () (newGame newGameStats\<lparr>playerCase := 0\<rparr>))\<lparr>round_no := 1\<rparr>
     = exampleGame"
  by (simp add: shufflePrizes_def std_shuffle_def keepOrder_def newGame_def exampleGame_def
      updateRemainingPrizes_def allPrizes_def upt26 replicate26)

lemma within_zeroDraw: "within_0_25 zeroDraw"
  by (simp add: within_0_25_def zeroDraw_def)

lemma exampleComputerRun:
  "length (remainingPrizes (final_state (computerPlay keepOrder zeroDraw () () (newGame newGameStats)))) = 11"
  "length (history (computerPlay keepOrder zeroDraw () () (newGame newGameStats))) = 9"
  "ending_of (computerPlay keepOrder zeroDraw () () (newGame newGameStats))
     = Some (NoDealFinalReveal (1 / 100))"
  "playerCase (final_state (computerPlay keepOrder zeroDraw () () (newGame newGameStats))) = 0"
  "map (\<lambda>x. (scheduled x, selected x, passed x))
       (history (computerPlay keepOrder zeroDraw () () (newGame newGameStats)))
     = [(6, [0, 1, 2, 3, 4, 5], [1, 2, 3, 4, 5]), (5, [0, 6, 7, 8, 9], [6, 7, 8, 9]),
        (4, [0, 10, 11, 12], [10, 11, 12]), (3, [0, 13, 14], [13, 14]), (2, [0, 15], [15]),
        (1, [0], []), (1, [0], []), (1, [0], []), (1, [0], [])]"
  by (simp_all add: computerPlay_def zeroDraw_def shufflePrizes_def std_shuffle_def keepOrder_def
      allPrizes_def newGame_def updateRemainingPrizes_def casesToOpenPerRound_def
      selectCasesToOpen_def openCases_def shouldAcceptDeal_def calculateExpectedValue_def
      calculateBankOffer_def Let_def upt26 replicate26 finalReveal_def)

lemma exampleHumanRun:
  "ending_of (playGame keepOrder () (typed 0 # rejectAll exampleBatches @ []) (newGame newGameStats))
     = Some (NoDealFinalReveal (caseValues (final_state
         (playGame keepOrder () (typed 0 # rejectAll exampleBatches @ []) (newGame newGameStats))) ! nat 0))"
  "playerCase (final_state
      (playGame keepOrder () (typed 0 # rejectAll exampleBatches @ []) (newGame newGameStats))) = 0"
  "length (history
      (playGame keepOrder () (typed 0 # rejectAll exampleBatches @ []) (newGame newGameStats))) = 9"
  using playGame_scripted [OF permuting_keepOrder _ _ exampleBatches_shape, of "()" "[]" newGameStats]
  by simp_all

lemma sound_run_closed:
  assumes "sound_run g n r" and "inPlay g"
  shows "playerCase_closed r"
proof -
  from assms have "0 \<le> playerCase g" "playerCase g < 26"
    by (simp_all add: inPlay_def)
  with assms(1) show ?thesis
    by (auto simp: playerCase_closed_def sound_run_def sound_end_def inPlay_def)
qed

lemma sound_run_recorded:
  "sound_run g n r \<Longrightarrow> recorded_as_won (stats g) r"
  by (auto simp: recorded_as_won_def sound_run_def sound_end_def
      split: option.splits ending.splits)

text \<open>
  Claim C8. In human play and in computer auto-play alike, the player's chosen case is
  never opened: after every call of \<^verbatim>\<open>openCases\<close> and when the play function is left,
  \<^verbatim>\<open>casesOpened[playerCase]\<close> is false, the player's case is the one chosen at the start,
  and no batch passed to \<^verbatim>\<open>openCases\<close> holds it (the only cases \<^verbatim>\<open>openCases\<close> marks are
  those of its batch, and \<^verbatim>\<open>shufflePrizes\<close> starts the game with no case marked).
\<close>

theorem playerCase_never_opened:
  "permuting sh \<Longrightarrow> within_0_25 draw \<Longrightarrow>
     playerCase_closed (playGame sh rng input (newGame loaded))
     \<and> playerCase_closed (computerPlay sh draw rng airng (newGame loaded))"
proof
  assume sh: "permuting sh"
  show "playerCase_closed (playGame sh rng input (newGame loaded))"
  proof (cases "getValidInput 1 26 input")
    case None
    show ?thesis
      by (simp add: playGame_not_started [OF None] playerCase_closed_def newGame_def)
  next
    case (Some a)
    then obtain n input1 where "getValidInput 1 26 input = Some (n, input1)"
      by (cases a) simp
    from playGame_sound [OF sh this, of loaded rng] show ?thesis
      using sound_run_closed by blast
  qed
next
  assume "permuting sh" "within_0_25 draw"
  from computerPlay_sound [OF this, of loaded rng airng]
  show "playerCase_closed (computerPlay sh draw rng airng (newGame loaded))"
    using sound_run_closed by blast
qed

theorem playerCase_never_opened_witness:
  "permuting keepOrder \<and> within_0_25 zeroDraw
   \<and> history (computerPlay keepOrder zeroDraw () () (newGame newGameStats)) \<noteq> []
   \<and> \<not> casesOpened (final_state (computerPlay keepOrder zeroDraw () () (newGame newGameStats))) ! 0
   \<and> history (playGame keepOrder () (typed 0 # rejectAll exampleBatches @ []) (newGame newGameStats))
        \<noteq> []
   \<and> \<not> casesOpened (final_state
         (playGame keepOrder () (typed 0 # rejectAll exampleBatches @ []) (newGame newGameStats))) ! 0"
proof -
  have "history (computerPlay keepOrder zeroDraw () () (newGame newGameStats)) \<noteq> []"
    using exampleComputerRun(2) by auto
  moreover have "history (playGame keepOrder () (typed 0 # rejectAll exampleBatches @ [])
      (newGame newGameStats)) \<noteq> []"
    using exampleHumanRun(3) by auto
  ultimately show ?thesis
    using playerCase_never_opened [OF permuting_keepOrder within_zeroDraw,
        of "()" "typed 0 # rejectAll exampleBatches @ []" newGameStats "()"]
      exampleComputerRun(4) exampleHumanRun(2) permuting_keepOrder within_zeroDraw
    by (simp add: playerCase_closed_def)
qed

subsection \<open>The statistics\<close>

lemma updateStats_counts:
  "gamesPlayed (updateStats won s) = gamesPlayed s + 1"
  "gamesWon (updateStats won s) = (if 0 < won then gamesWon s + 1 else gamesWon s)"
  by (simp_all add: updateStats_def Let_def)

lemma fold_updateStats_counts:
  "\<forall>w \<in> set payouts. 0 < w \<Longrightarrow>
     gamesPlayed (fold updateStats payouts s) = gamesPlayed s + int (length payouts)
     \<and> gamesWon (fold updateStats payouts s) = gamesWon s + int (length payouts)"
  by (induction payouts arbitrary: s) (simp_all add: updateStats_counts)

lemma winRate_all_won:
  "gamesWon s = gamesPlayed s \<Longrightarrow> 0 < gamesPlayed s \<Longrightarrow> winRate s = 100"
  by (simp add: winRate_def)

text \<open>
  Claim C9. Every game that concludes, in human play or in computer auto-play, records a
  strictly positive payout and never ends in an exception; a game that does not conclude
  records nothing. So a call of \<^verbatim>\<open>updateStats\<close> with a positive payout keeps
  \<^verbatim>\<open>gamesWon = gamesPlayed\<close>, and from zeroed statistics any number of recorded games
  leaves \<^verbatim>\<open>gamesWon = gamesPlayed\<close>, the number of games, with a win rate of 100 percent
  once a game has been recorded.
\<close>

theorem every_game_recorded_as_won:
  "permuting sh \<Longrightarrow> within_0_25 draw \<Longrightarrow>
     recorded_as_won loaded (playGame sh rng input (newGame loaded))
     \<and> recorded_as_won loaded (computerPlay sh draw rng airng (newGame loaded))
     \<and> (0 < won \<and> gamesWon s = gamesPlayed s \<and> 0 \<le> gamesPlayed s \<longrightarrow>
           gamesWon (updateStats won s) = gamesPlayed (updateStats won s)
           \<and> winRate (updateStats won s) = 100)
     \<and> ((\<forall>w \<in> set payouts. 0 < w) \<longrightarrow>
           gamesWon (fold updateStats payouts newGameStats)
             = gamesPlayed (fold updateStats payouts newGameStats)
           \<and> gamesPlayed (fold updateStats payouts newGameStats) = int (length payouts)
           \<and> (payouts \<noteq> [] \<longrightarrow> winRate (fold updateStats payouts newGameStats) = 100))"
proof (intro conjI impI)
  assume sh: "permuting sh"
  show "recorded_as_won loaded (playGame sh rng input (newGame loaded))"
  proof (cases "getValidInput 1 26 input")
    case None
    show ?thesis
      by (simp add: playGame_not_started [OF None] recorded_as_won_def newGame_def)
  next
    case (Some a)
    then obtain n input1 where "getValidInput 1 26 input = Some (n, input1)"
      by (cases a) simp
    from playGame_sound [OF sh this, of loaded rng] show ?thesis
      using sound_run_recorded by blast
  qed
next
  assume "permuting sh" "within_0_25 draw"
  from computerPlay_sound [OF this, of loaded rng airng]
  show "recorded_as_won loaded (computerPlay sh draw rng airng (newGame loaded))"
    using sound_run_recorded by blast
next
  assume a: "0 < won \<and> gamesWon s = gamesPlayed s \<and> 0 \<le> gamesPlayed s"
  then show "gamesWon (updateStats won s) = gamesPlayed (updateStats won s)"
    by (simp add: updateStats_counts)
  with a show "winRate (updateStats won s) = 100"
    by (intro winRate_all_won) (simp_all add: updateStats_counts)
next
  assume a: "\<forall>w \<in> set payouts. 0 < w"
  from fold_updateStats_counts [OF a, of newGameStats]
  show c: "gamesWon (fold updateStats payouts newGameStats)
             = gamesPlayed (fold updateStats payouts newGameStats)"
    and l: "gamesPlayed (fold updateStats payouts newGameStats) = int (length payouts)"
    by (simp_all add: newGameStats_def)
  assume "payouts \<noteq> []"
  with l have "0 < gamesPlayed (fold updateStats payouts newGameStats)"
    by simp
  with c show "winRate (fold updateStats payouts newGameStats) = 100"
    by (rule winRate_all_won)
qed

theorem every_game_recorded_as_won_witness:
  "permuting keepOrder \<and> within_0_25 zeroDraw
   \<and> stats (final_state (computerPlay keepOrder zeroDraw () () (newGame newGameStats)))
        = updateStats (1 / 100) newGameStats
   \<and> gamesWon (updateStats (1 / 100) newGameStats) = 1
   \<and> gamesPlayed (updateStats (1 / 100) newGameStats) = 1
   \<and> winRate (updateStats (1 / 100) newGameStats) = 100
   \<and> gamesWon (fold updateStats [1 / 100, 75000] newGameStats) = 2
   \<and> winRate (fold updateStats [1 / 100, 75000] newGameStats) = 100"
proof -
  have z: "gamesWon newGameStats = 0" "gamesPlayed newGameStats = 0"
    by (simp_all add: newGameStats_def)
  show ?thesis
    using every_game_recorded_as_won [OF permuting_keepOrder within_zeroDraw,
        of newGameStats "()" "[]" "()" "1 / 100" newGameStats "[1 / 100, 75000]"]
      exampleComputerRun(3) permuting_keepOrder within_zeroDraw z
    by (simp add: recorded_as_won_def updateStats_counts)
qed

subsection \<open>The rounds of computer auto-play\<close>

lemma unopened_plus_opened:
  "unopenedCount opened + length (filter (\<lambda>b. b) opened) = length opened"
  using sum_length_filter_compl [of "\<lambda>b. b" opened] by (simp add: unopenedCount_def)

lemma length_without:
  "distinct xs \<Longrightarrow>
     int (length (filter (\<lambda>c. c \<noteq> a) xs)) = int (length xs) - (if a \<in> set xs then 1 else 0)"
  by (induction xs) auto

lemma computerRounds_batches:
  "permuting sh \<Longrightarrow> inPlay g \<Longrightarrow> \<forall>n \<in> set schedule. 0 \<le> n \<Longrightarrow>
     int (openedCount g) + sum_list schedule \<le> 24 \<Longrightarrow>
     \<forall>x \<in> set (history (computerRounds sh schedule airng g)). batch_of_round (playerCase g) x"
proof (induction schedule arbitrary: airng g)
  case Nil
  then show ?case by (simp add: finalReveal_def Let_def)
next
  case (Cons roundCases schedule)
  note sh = Cons.prems(1) and g = Cons.prems(2)
  from Cons.prems(3) have nn: "0 \<le> roundCases" "\<forall>n \<in> set schedule. 0 \<le> n"
    by simp_all
  then have "0 \<le> sum_list schedule"
    by (simp add: sum_list_nonneg)
  with Cons.prems(4) have room: "int (openedCount g) + roundCases \<le> 24"
    by simp
  show ?case
  proof (cases "length (remainingPrizes g) \<le> 1")
    case True
    then show ?thesis by (simp add: finalReveal_def Let_def)
  next
    case False
    obtain sampled airng' where s: "selectCasesToOpen sh (casesOpened g) roundCases airng = (sampled, airng')"
      by (cases "selectCasesToOpen sh (casesOpened g) roundCases airng")
    let ?cs = "filter (\<lambda>c. c \<noteq> playerCase g) sampled"
    from g have len: "length (casesOpened g) = 26"
      by (simp add: inPlay_def)
    from unopened_plus_opened [of "casesOpened g"] len
    have "unopenedCount (casesOpened g) + openedCount g = 26"
      by (simp add: openedCount_def)
    with room have "roundCases \<le> int (unopenedCount (casesOpened g))"
      by linarith
    with selectCasesToOpen_props [OF sh, of "casesOpened g" roundCases airng] s g nn(1)
    have d: "distinct sampled"
      and v: "\<forall>c \<in> set sampled. 0 \<le> c \<and> nat c < 26 \<and> \<not> casesOpened g ! nat c"
      and l: "int (length sampled) = roundCases"
      by (simp_all add: inPlay_def)
    from length_without [OF d, of "playerCase g"] l
    have l': "int (length ?cs) = roundCases - (if playerCase g \<in> set sampled then 1 else 0)"
      by simp
    from d have d': "distinct ?cs" by simp
    from v have ok: "\<forall>c \<in> set ?cs. openable g c"
      by (auto simp: openable_def)
    from openCases_inPlay [OF g d' ok] obtain g1
      where o: "openCases ?cs g = Inr g1" and g1: "inPlay g1"
        and f: "playerCase g1 = playerCase g"
        and c1: "openedCount g1 = openedCount g + length ?cs"
      by blast
    let ?g2 = "g1\<lparr>round_no := round_no g1 + 1\<rparr>"
    let ?x = "\<lparr>scheduled = roundCases, selected = sampled, passed = ?cs, after = g1\<rparr>"
    let ?r = "if length (remainingPrizes g1) \<le> 1 then finalReveal g1
              else
                let bankOffer = calculateBankOffer g1
                in if shouldAcceptDeal (remainingPrizes g1) bankOffer
                        (int (length (remainingPrizes g1)))
                   then acceptDeal bankOffer g1
                   else computerRounds sh schedule airng' ?g2"
    have e: "computerRounds sh (roundCases # schedule) airng g = after_round ?x ?r"
      using False s o by (simp add: Let_def)
    from c1 l' Cons.prems(4) have room2: "int (openedCount ?g2) + sum_list schedule \<le> 24"
      by (simp add: openedCount_def split: if_splits)
    have pg2: "playerCase ?g2 = playerCase g"
      using f by simp
    note ih = Cons.IH [OF sh inPlay_next_round [OF g1] nn(2) room2, of airng', unfolded pg2]
    have "history ?r = [] \<or> history ?r = history (computerRounds sh schedule airng' ?g2)"
      by (simp add: finalReveal_def acceptDeal_def Let_def)
    with ih have "\<forall>x \<in> set (history ?r). batch_of_round (playerCase g) x"
      by auto
    moreover have "batch_of_round (playerCase g) ?x"
      using l l' by (simp add: batch_of_round_def)
    ultimately show ?thesis
      by (simp only: e after_round_parts) simp
  qed
qed

text \<open>
  Claim C10. In computer auto-play every round samples as many unopened cases as its
  schedule entry says and removes the computer's own case only afterwards, so the round
  opens one case fewer than scheduled whenever the own case was sampled, and the
  scheduled number otherwise. Consequently more than two cases can be hidden when the
  schedule is exhausted: when every shuffle keeps the order of the cases and the
  computer holds case 0, the own case is sampled in all 9 rounds, no offer is accepted,
  and 11 cases are still hidden at the final reveal.
\<close>

theorem computerPlay_round_sizes:
  "permuting sh \<Longrightarrow> within_0_25 draw \<Longrightarrow>
     (\<forall>x \<in> set (history (computerPlay sh draw rng airng (newGame loaded))).
        batch_of_round (fst (draw rng)) x)
     \<and> playerCase (final_state (computerPlay sh draw rng airng (newGame loaded))) = fst (draw rng)
     \<and> ending_of (computerPlay keepOrder zeroDraw () () (newGame newGameStats))
          = Some (NoDealFinalReveal (1 / 100))
     \<and> length (history (computerPlay keepOrder zeroDraw () () (newGame newGameStats)))
          = length casesToOpenPerRound
     \<and> length (remainingPrizes (final_state
          (computerPlay keepOrder zeroDraw () () (newGame newGameStats)))) = 11"
proof (intro conjI)
  assume sh: "permuting sh" and dr: "within_0_25 draw"
  let ?r = "computerPlay sh draw rng airng (newGame loaded)"
  from computerPlay_sound [OF sh dr, of loaded rng airng] obtain g
    where g: "inPlay g" and oc: "openedCount g = 0" and pc: "playerCase g = fst (draw rng)"
      and e: "?r = computerRounds sh casesToOpenPerRound airng g"
      and sr: "sound_run g 9 ?r"
    by blast
  have "\<forall>n \<in> set casesToOpenPerRound. 0 \<le> n"
    by (simp add: casesToOpenPerRound_def)
  moreover from oc have "int (openedCount g) + sum_list casesToOpenPerRound \<le> 24"
    by (simp add: casesToOpenPerRound_sum)
  ultimately show "\<forall>x \<in> set (history ?r). batch_of_round (fst (draw rng)) x"
    using computerRounds_batches [OF sh g, of casesToOpenPerRound airng] pc
    by (simp add: e)
  from sr pc show "playerCase (final_state ?r) = fst (draw rng)"
    by (simp add: sound_run_def sound_end_def)
qed (simp_all add: exampleComputerRun casesToOpenPerRound_length)

theorem computerPlay_round_sizes_witness:
  "permuting keepOrder \<and> within_0_25 zeroDraw
   \<and> map (\<lambda>x. (scheduled x, selected x, passed x))
       (history (computerPlay keepOrder zeroDraw () () (newGame newGameStats)))
     = [(6, [0, 1, 2, 3, 4, 5], [1, 2, 3, 4, 5]), (5, [0, 6, 7, 8, 9], [6, 7, 8, 9]),
        (4, [0, 10, 11, 12], [10, 11, 12]), (3, [0, 13, 14], [13, 14]), (2, [0, 15], [15]),
        (1, [0], []), (1, [0], []), (1, [0], []), (1, [0], [])]
   \<and> length (remainingPrizes (final_state
          (computerPlay keepOrder zeroDraw () () (newGame newGameStats)))) = 11
   \<and> playerCase (final_state (computerPlay keepOrder zeroDraw () () (newGame newGameStats))) = 0"
  using computerPlay_round_sizes [OF permuting_keepOrder within_zeroDraw, of "()" "()" newGameStats]
    exampleComputerRun(5) permuting_keepOrder within_zeroDraw
  by (simp add: zeroDraw_def)

end
